theory Spec2Isabelle
  imports Complex_Main "HOL-Library.Char_ord" "HOL-Library.List_Lexorder" "HOL-Library.Multiset"
begin

section \<open>Shared vocabulary\<close>

text \<open>
  The Python exceptions that the modelled functions can raise; \<open>EvalError\<close> stands for
  whatever \<^verbatim>\<open>eval\<close> raises on a text that is no Python expression.
\<close>

datatype py_error =
    NotImplementedError
  | IndexError
  | KeyError
  | TypeError
  | ValueError
  | ZeroDivisionError
  | AttributeError
  | StopIteration
  | EvalError
  | BadZipFile
  | UnboundLocalError

text \<open>
  The Python values that \<^verbatim>\<open>eval\<close> can give back from the text of an LLM response or of a
  stored field. \<^verbatim>\<open>eval\<close> itself is the interpreter's; the models take its outcome as their
  input, \<open>None\<close> standing for a raised exception.
\<close>

datatype pyval =
    PyNone
  | PyBool bool
  | PyInt int
  | PyStr string
  | PyList "pyval list"
  | PyDict "(string \<times> pyval) list"

text \<open>\<^verbatim>\<open>d.get(k, default)\<close> and \<^verbatim>\<open>d[k] = v\<close> on a dictionary kept in insertion order.\<close>

definition dict_get :: "('k \<times> 'v) list \<Rightarrow> 'k \<Rightarrow> 'v \<Rightarrow> 'v" where
  "dict_get d k dflt = (case map_of d k of None \<Rightarrow> dflt | Some v \<Rightarrow> v)"

fun dict_set :: "('k \<times> 'v) list \<Rightarrow> 'k \<Rightarrow> 'v \<Rightarrow> ('k \<times> 'v) list" where
  "dict_set [] k v = [(k, v)]"
| "dict_set ((k', v') # d) k v = (if k' = k then (k, v) # d else (k', v') # dict_set d k v)"

text \<open>\<^verbatim>\<open>sorted(xs, key = f, reverse = True)\<close>: descending by key, equal keys in their given order.\<close>

definition sorted_desc :: "('a \<Rightarrow> 'b::{linorder,uminus}) \<Rightarrow> 'a list \<Rightarrow> 'a list" where
  "sorted_desc f xs = sort_key (\<lambda>x. - f x) xs"

section \<open>Leiden partitioner (graphrag/index/G_LeidenAlgorithm.py)\<close>

text \<open>
  A node is the tuple of the leaf vertex ids it stands for: a vertex of the input graph is
  the one-element list of its id (Python: the \<^verbatim>\<open>str\<close> itself, which \<^verbatim>\<open>flatten\<close> and \<^verbatim>\<open>get_len\<close>
  treat as one leaf), a node of an aggregated graph is \<^verbatim>\<open>tuple(self.flatten(community))\<close>.
  Nodes are compared as Python compares strings and tuples of strings, lexicographically.
  A community is a Python set of nodes, kept as the list of its elements in the order in
  which the set is iterated; a partition is the list of its communities. Weights and
  \<open>gamma\<close> are real numbers.
\<close>

type_synonym node = "string list"
type_synonym community = "node list"
type_synonym partition = "community list"

text \<open>
  The graph dictionary: \<^verbatim>\<open>vertices\<close> and \<^verbatim>\<open>edges\<close>. The third entry, \<^verbatim>\<open>edge_connections\<close>, is
  \<^verbatim>\<open>set(edges.keys())\<close> wherever a graph is built, so it is read off \<open>edges\<close>.
\<close>

record graph =
  vertices :: "node list"
  edges :: "node \<times> node \<Rightarrow> real option"

text \<open>\<^verbatim>\<open>graph['edges'].get((node1, node2), 0)\<close>\<close>

definition edge_get :: "graph \<Rightarrow> node \<times> node \<Rightarrow> real" where
  "edge_get g p = (case edges g p of None \<Rightarrow> 0 | Some w \<Rightarrow> w)"

definition edge_connections :: "graph \<Rightarrow> node \<times> node \<Rightarrow> bool" where
  "edge_connections g p = (edges g p \<noteq> None)"

text \<open>\<^verbatim>\<open>flatten\<close> and \<^verbatim>\<open>get_len\<close> on a community: its leaves and their number.\<close>

definition flatten :: "community \<Rightarrow> string list" where
  "flatten something = concat something"

definition get_len :: "community \<Rightarrow> nat" where
  "get_len something = length (flatten something)"

text \<open>\<^verbatim>\<open>count_connecting_edges_in\<close>: \<^verbatim>\<open>for node1 in community for node2 in community if node1 > node2\<close>\<close>

definition count_connecting_edges_in :: "graph \<Rightarrow> community \<Rightarrow> real" where
  "count_connecting_edges_in g community =
     (\<Sum>node1\<leftarrow>community. \<Sum>node2\<leftarrow>filter (\<lambda>node2. node1 > node2) community.
        edge_get g (node1, node2))"

text \<open>\<^verbatim>\<open>count_connecting_edges\<close>\<close>

definition count_connecting_edges :: "graph \<Rightarrow> community \<Rightarrow> community \<Rightarrow> real" where
  "count_connecting_edges g community1 community2 =
     (\<Sum>node1\<leftarrow>community1. \<Sum>node2\<leftarrow>community2. edge_get g (node1, node2))"

text \<open>\<^verbatim>\<open>constant_potts_model\<close>, with \<^verbatim>\<open>math.comb(n, 2)\<close> the binomial coefficient.\<close>

definition constant_potts_model :: "graph \<Rightarrow> partition \<Rightarrow> real \<Rightarrow> real" where
  "constant_potts_model g part gamma =
     (\<Sum>community\<leftarrow>part.
        count_connecting_edges_in g community - gamma * real (get_len community choose 2))"

text \<open>The local function \<^verbatim>\<open>comb(c, n)\<close> of \<^verbatim>\<open>delta_potts_model\<close>.\<close>

definition comb_delta :: "real \<Rightarrow> real \<Rightarrow> real" where
  "comb_delta c n = 0.5 * n * (1 - n) - n * c"

text \<open>
  \<^verbatim>\<open>delta_potts_model\<close>. \<^verbatim>\<open>node_community - single_community\<close> is the difference of sets.
\<close>

definition delta_potts_model ::
    "graph \<Rightarrow> partition \<Rightarrow> real \<Rightarrow> node \<Rightarrow> community \<Rightarrow> community \<Rightarrow> real" where
  "delta_potts_model g part gamma changing_node node_community changing_community =
     (if changing_node \<in> set changing_community then 0
      else (let single_community = [changing_node];
                node_length = real (length changing_node);
                small_community = removeAll changing_node node_community
            in count_connecting_edges g changing_community single_community
               - count_connecting_edges g small_community single_community
               + gamma * (comb_delta (real (get_len changing_community)) node_length
                          - comb_delta (real (get_len small_community)) node_length)))"

text \<open>
  \<^verbatim>\<open>get_community_of_node\<close> returns the first community that holds the node, the object
  itself; the model gives its position in the partition, \<open>None\<close> where the source returns a
  fresh empty set.
\<close>

fun community_index :: "partition \<Rightarrow> node \<Rightarrow> nat option" where
  "community_index [] n = None"
| "community_index (c # cs) n =
     (if n \<in> set c then Some 0 else map_option Suc (community_index cs n))"

definition get_community_of_node :: "partition \<Rightarrow> node \<Rightarrow> community" where
  "get_community_of_node part n =
     (case community_index part n of None \<Rightarrow> [] | Some i \<Rightarrow> part ! i)"

text \<open>
  The move that \<^verbatim>\<open>move_nodes\<close> and \<^verbatim>\<open>merge_nodes_subset\<close> make, for the node of the community
  at position \<open>ci\<close> and the target at position \<open>j\<close> (\<open>None\<close>: the fresh empty set):
  \<^verbatim>\<open>node_community.remove(node)
  if not node_community: partition.remove(node_community)
  if max_community: max_community.add(node) else: partition.append({node})\<close>
  \<^verbatim>\<open>partition.remove\<close> deletes the first community equal to the emptied one, after which
  the communities behind it stand one position lower.
\<close>

definition move_node :: "partition \<Rightarrow> node \<Rightarrow> nat \<Rightarrow> nat option \<Rightarrow> partition" where
  "move_node part n ci target =
     (let part1 = part[ci := remove1 n (part ! ci)];
          emptied = (part1 ! ci = []);
          part2 = (if emptied then remove1 [] part1 else part1)
      in case target of
           None \<Rightarrow> part2 @ [[n]]
         | Some j \<Rightarrow>
             (let j' = (if emptied \<and> ci < j then j - 1 else j)
              in part2[j' := part2 ! j' @ [n]]))"

text \<open>The summand of \<^verbatim>\<open>constant_potts_model\<close> for one community.\<close>

definition community_term :: "graph \<Rightarrow> real \<Rightarrow> community \<Rightarrow> real" where
  "community_term g gamma community =
     count_connecting_edges_in g community - gamma * real (get_len community choose 2)"

text \<open>The edge dictionary holds every weight in both directions.\<close>

definition symmetric :: "graph \<Rightarrow> bool" where
  "symmetric g = (\<forall>a b. edge_get g (a, b) = edge_get g (b, a))"

text \<open>
  A path of three vertices \<open>a - b - c\<close> with the weights 1 and 2, stored in both directions,
  and its singleton partition.
\<close>

definition path_graph :: graph where
  "path_graph = \<lparr>vertices = [[''a''], [''b''], [''c'']],
                  edges = map_of [(([''a''], [''b'']), 1), (([''b''], [''a'']), 1),
                                  (([''b''], [''c'']), 2), (([''c''], [''b'']), 2)]\<rparr>"

definition path_singletons :: partition where
  "path_singletons = [[[''a'']], [[''b'']], [[''c'']]]"

subsection \<open>The random generator\<close>

text \<open>
  \<^verbatim>\<open>random.seed(17032025)\<close> fixes the stream of draws of the generator. The model takes the
  stream as a list of naturals (0 when it is used up) and follows CPython's \<^verbatim>\<open>random\<close>
  module: \<^verbatim>\<open>_randbelow(n)\<close> gives a number below \<open>n\<close>, \<^verbatim>\<open>random()\<close> a multiple of \<open>2^-53\<close> in
  \<open>[0, 1)\<close>, \<^verbatim>\<open>shuffle\<close> swaps every position, from the last down to the second, with a
  position drawn at or below it, and \<^verbatim>\<open>choices\<close> bisects the cumulative weights at
  \<^verbatim>\<open>random() * total\<close>.
\<close>

type_synonym rng = "nat list"

definition next_draw :: "rng \<Rightarrow> nat \<times> rng" where
  "next_draw r = (case r of [] \<Rightarrow> (0, []) | x # r' \<Rightarrow> (x, r'))"

definition randbelow :: "nat \<Rightarrow> rng \<Rightarrow> nat \<times> rng" where
  "randbelow n r = (case next_draw r of (x, r') \<Rightarrow> (x mod n, r'))"

definition random :: "rng \<Rightarrow> real \<times> rng" where
  "random r = (case next_draw r of (x, r') \<Rightarrow> (real (x mod 2 ^ 53) / 2 ^ 53, r'))"

text \<open>\<open>shuffle_from i\<close> runs the passes for the positions \<open>i, i - 1, ..., 1\<close>.\<close>

fun shuffle_from :: "nat \<Rightarrow> 'a list \<Rightarrow> rng \<Rightarrow> 'a list \<times> rng" where
  "shuffle_from 0 x r = (x, r)"
| "shuffle_from (Suc i) x r =
     (case randbelow (Suc (Suc i)) r of
        (j, r') \<Rightarrow> shuffle_from i (x[Suc i := x ! j, j := x ! Suc i]) r')"

definition shuffle :: "'a list \<Rightarrow> rng \<Rightarrow> 'a list \<times> rng" where
  "shuffle x r = shuffle_from (length x - 1) x r"

text \<open>\<^verbatim>\<open>itertools.accumulate(weights)\<close>, the second argument being the sum so far.\<close>

fun accumulate_weights :: "real list \<Rightarrow> real \<Rightarrow> real list" where
  "accumulate_weights [] s = []"
| "accumulate_weights (w # ws) s = (s + w) # accumulate_weights ws (s + w)"

text \<open>
  \<^verbatim>\<open>bisect(cum_weights, x, 0, hi)\<close> on cumulative weights, which ascend: the number of entries
  among the first \<open>hi\<close> that are at most \<open>x\<close>.
\<close>

definition bisect :: "real list \<Rightarrow> real \<Rightarrow> nat \<Rightarrow> nat" where
  "bisect cum_weights x hi = length (takeWhile (\<lambda>c. c \<le> x) (take hi cum_weights))"

text \<open>
  \<^verbatim>\<open>choices(population, weights)[0]\<close> as the position of the chosen element: IndexError on an
  empty population, ValueError when the total weight is not positive.
\<close>

definition choices :: "nat \<Rightarrow> real list \<Rightarrow> rng \<Rightarrow> (py_error + nat) \<times> rng" where
  "choices n weights r =
     (let cum_weights = accumulate_weights weights 0
      in if length cum_weights \<noteq> n then (Inl ValueError, r)
         else if cum_weights = [] then (Inl IndexError, r)
         else (let tot = last cum_weights
               in if tot \<le> 0 then (Inl ValueError, r)
                  else (case random r of
                          (x, r') \<Rightarrow> (Inr (bisect cum_weights (x * tot) (n - 1)), r'))))"

subsection \<open>Local move\<close>

text \<open>
  \<^verbatim>\<open>for community in partition: if (potts_value := delta_potts_model(...)) > max_potts_value\<close>:
  the communities still to visit, the position of the next one, and the best target with
  its value so far. The target \<open>None\<close> is the fresh empty set.
\<close>

fun scan_communities :: "graph \<Rightarrow> partition \<Rightarrow> real \<Rightarrow> node \<Rightarrow> community \<Rightarrow> partition \<Rightarrow> nat
    \<Rightarrow> nat option \<times> real \<Rightarrow> nat option \<times> real" where
  "scan_communities g part gamma n node_community [] j best = best"
| "scan_communities g part gamma n node_community (community # rest) j best =
     (let potts_value = delta_potts_model g part gamma n node_community community
      in if potts_value > snd best
         then scan_communities g part gamma n node_community rest (Suc j) (Some j, potts_value)
         else scan_communities g part gamma n node_community rest (Suc j) best)"

text \<open>\<^verbatim>\<open>get_graph_neighbors\<close>\<close>

definition get_graph_neighbors :: "graph \<Rightarrow> node \<Rightarrow> node list" where
  "get_graph_neighbors g n = filter (\<lambda>neighbor. edge_connections g (n, neighbor)) (vertices g)"

text \<open>\<^verbatim>\<open>next_queue.add(neighbor)\<close> on the set kept as a list.\<close>

definition set_add :: "'a list \<Rightarrow> 'a \<Rightarrow> 'a list" where
  "set_add xs x = (if x \<in> set xs then xs else xs @ [x])"

text \<open>
  The body of the inner loop of \<^verbatim>\<open>move_nodes\<close> for the popped node. When a move is found
  for a node that no community holds, \<^verbatim>\<open>node_community.remove(node)\<close> raises KeyError.
\<close>

definition visit :: "graph \<Rightarrow> real \<Rightarrow> node \<Rightarrow> partition \<Rightarrow> node list
    \<Rightarrow> py_error + (partition \<times> node list)" where
  "visit g gamma n part next_queue =
     (let node_community = get_community_of_node part n;
          potts_value = delta_potts_model g part gamma n node_community [];
          start = (if potts_value > 0 then (None, potts_value) else (None, 0));
          best = scan_communities g part gamma n node_community part 0 start;
          max_community = fst best;
          max_potts_value = snd best
      in if max_potts_value > 0
         then (case community_index part n of
                 None \<Rightarrow> Inl KeyError
               | Some ci \<Rightarrow>
                   (let members = (case max_community of None \<Rightarrow> [] | Some j \<Rightarrow> part ! j @ [n])
                    in Inr (move_node part n ci max_community,
                            fold (\<lambda>neighbor q. if neighbor \<in> set members then q else set_add q neighbor)
                              (get_graph_neighbors g n) next_queue)))
         else Inr (part, next_queue))"

text \<open>
  The two nested loops of \<^verbatim>\<open>move_nodes\<close>. The source gives no bound for them, so the model
  takes fuel, one unit for every pop and every refill; \<open>None\<close> says that the fuel ran out.
\<close>

fun move_loop :: "nat \<Rightarrow> graph \<Rightarrow> real \<Rightarrow> node list \<Rightarrow> node list \<Rightarrow> partition \<Rightarrow> rng
    \<Rightarrow> (py_error + partition \<times> rng) option" where
  "move_loop 0 g gamma node_queue next_queue part r = None"
| "move_loop (Suc fuel) g gamma node_queue next_queue part r =
     (if node_queue \<noteq> []
      then (case visit g gamma (last node_queue) part next_queue of
              Inl e \<Rightarrow> Some (Inl e)
            | Inr (part', next_queue') \<Rightarrow>
                move_loop fuel g gamma (butlast node_queue) next_queue' part' r)
      else if next_queue \<noteq> []
      then (case shuffle next_queue r of
              (node_queue', r') \<Rightarrow> move_loop fuel g gamma node_queue' [] part r')
      else Some (Inr (part, r)))"

definition move_nodes :: "nat \<Rightarrow> graph \<Rightarrow> partition \<Rightarrow> real \<Rightarrow> rng
    \<Rightarrow> (py_error + partition \<times> rng) option" where
  "move_nodes fuel g part gamma r =
     (case shuffle (vertices g) r of
        (node_queue, r') \<Rightarrow> move_loop fuel g gamma node_queue [] part r')"

subsection \<open>Refinement\<close>

text \<open>\<^verbatim>\<open>singleton_partition\<close>\<close>

definition singleton_partition :: "graph \<Rightarrow> partition" where
  "singleton_partition g = map (\<lambda>vertex. [vertex]) (vertices g)"

text \<open>The constants \<^verbatim>\<open>self.theta\<close> and \<^verbatim>\<open>self.max_exp\<close>.\<close>

definition theta :: real where
  "theta = 1 / 10"

definition max_exp :: real where
  "max_exp = 709 * theta"

text \<open>
  The threshold test of \<^verbatim>\<open>merge_nodes_subset\<close>, for a node (as the set of it alone) and for
  a community:
  \<^verbatim>\<open>count_connecting_edges(graph, c, subset - c) >= gamma * get_len(c) * (get_len(subset) - get_len(c))\<close>
\<close>

definition well_connected :: "graph \<Rightarrow> real \<Rightarrow> community \<Rightarrow> community \<Rightarrow> bool" where
  "well_connected g gamma c subs =
     (count_connecting_edges g c (filter (\<lambda>n. n \<notin> set c) subs)
      \<ge> gamma * real (get_len c) * (real (get_len subs) - real (get_len c)))"

text \<open>The entry of \<^verbatim>\<open>probabilities\<close> for one candidate community.\<close>

definition probability :: "real \<Rightarrow> real" where
  "probability delta_potts =
     (if delta_potts \<ge> max_exp then exp 709
      else if delta_potts \<ge> 0 then exp (delta_potts / theta) else 0)"

text \<open>
  The body of the loop \<^verbatim>\<open>for node in well_connected_nodes\<close>. The candidates are kept by
  their positions in the partition.
\<close>

definition merge_node :: "graph \<Rightarrow> real \<Rightarrow> community \<Rightarrow> node \<Rightarrow> partition \<Rightarrow> rng
    \<Rightarrow> (py_error + partition) \<times> rng" where
  "merge_node g gamma subs n part r =
     (let node_community = get_community_of_node part n
      in if length node_community > 1 then (Inr part, r)
         else (let well_connected_communities =
                     filter (\<lambda>j. set (part ! j) \<subseteq> set subs \<and> well_connected g gamma (part ! j) subs)
                       [0..<length part];
                   probabilities =
                     map (\<lambda>j. probability (delta_potts_model g part gamma n node_community (part ! j)))
                       well_connected_communities
               in case choices (length well_connected_communities) probabilities r of
                    (Inl e, r') \<Rightarrow> (Inl e, r')
                  | (Inr k, r') \<Rightarrow>
                      (let j = well_connected_communities ! k
                       in if n \<in> set (part ! j) then (Inr part, r')
                          else (case community_index part n of
                                  None \<Rightarrow> (Inl KeyError, r')
                                | Some ci \<Rightarrow> (Inr (move_node part n ci (Some j)), r')))))"

fun merge_loop :: "graph \<Rightarrow> real \<Rightarrow> community \<Rightarrow> node list \<Rightarrow> partition \<Rightarrow> rng
    \<Rightarrow> (py_error + partition) \<times> rng" where
  "merge_loop g gamma subs [] part r = (Inr part, r)"
| "merge_loop g gamma subs (n # rest) part r =
     (case merge_node g gamma subs n part r of
        (Inl e, r') \<Rightarrow> (Inl e, r')
      | (Inr part', r') \<Rightarrow> merge_loop g gamma subs rest part' r')"

text \<open>\<^verbatim>\<open>merge_nodes_subset\<close>\<close>

definition merge_nodes_subset :: "graph \<Rightarrow> partition \<Rightarrow> real \<Rightarrow> community \<Rightarrow> rng
    \<Rightarrow> (py_error + partition) \<times> rng" where
  "merge_nodes_subset g part gamma subs r =
     (case shuffle (filter (\<lambda>n. well_connected g gamma [n] subs) subs) r of
        (well_connected_nodes, r') \<Rightarrow> merge_loop g gamma subs well_connected_nodes part r')"

text \<open>\<^verbatim>\<open>refine_partition\<close>: the loop over the communities of the partition.\<close>

fun refine_loop :: "graph \<Rightarrow> real \<Rightarrow> partition \<Rightarrow> partition \<Rightarrow> rng \<Rightarrow> (py_error + partition) \<times> rng" where
  "refine_loop g gamma [] refined_part r = (Inr refined_part, r)"
| "refine_loop g gamma (community # rest) refined_part r =
     (case merge_nodes_subset g refined_part gamma community r of
        (Inl e, r') \<Rightarrow> (Inl e, r')
      | (Inr refined_part', r') \<Rightarrow> refine_loop g gamma rest refined_part' r')"

definition refine_partition :: "graph \<Rightarrow> partition \<Rightarrow> real \<Rightarrow> rng \<Rightarrow> (py_error + partition) \<times> rng" where
  "refine_partition g part gamma r = refine_loop g gamma part (singleton_partition g) r"

subsection \<open>Aggregation and the main loop\<close>

text \<open>
  \<^verbatim>\<open>aggregate_graph\<close>. \<^verbatim>\<open>tmp_edges\<close> lists the pairs of positions with a positive weight in
  the order of the comprehension; in the dictionary built from it a later entry for the
  same key replaces an earlier one. The new vertices are a set, so equal tuples fall
  together.
\<close>

definition tmp_edges :: "graph \<Rightarrow> partition \<Rightarrow> ((nat \<times> nat) \<times> real) list" where
  "tmp_edges g part =
     concat (map (\<lambda>com1.
       concat (map (\<lambda>com2.
         (let weight = count_connecting_edges g (part ! com1) (part ! com2)
          in if weight > 0 then [((com1, com2), weight)] else []))
         [0..<length part]))
       [0..<length part])"

definition aggregate_graph :: "graph \<Rightarrow> partition \<Rightarrow> graph" where
  "aggregate_graph g part =
     (let new_vertices = map flatten part
      in \<lparr>vertices = remdups new_vertices,
          edges = map_of (rev (map (\<lambda>(coms, weight).
                    ((new_vertices ! fst coms, new_vertices ! snd coms), weight))
                    (tmp_edges g part)))\<rparr>)"

text \<open>
  The partition on the new nodes:
  \<^verbatim>\<open>[{vertex for vertex in graph['vertices'] if set(vertex) <= set(self.flatten(community))}
    for community in partition]\<close>
\<close>

definition lift_partition :: "graph \<Rightarrow> partition \<Rightarrow> partition" where
  "lift_partition g' part =
     map (\<lambda>community. filter (\<lambda>vertex. set vertex \<subseteq> set (flatten community)) (vertices g')) part"

text \<open>
  One pass of the loop \<^verbatim>\<open>while True\<close> of \<^verbatim>\<open>get_leiden_parition\<close>: either the loop is left with
  the partition, or it goes on with the aggregated graph and the lifted partition.
\<close>

datatype iteration = Break partition rng | Continue graph partition rng

definition leiden_iteration :: "nat \<Rightarrow> graph \<Rightarrow> partition \<Rightarrow> real \<Rightarrow> rng
    \<Rightarrow> (py_error + iteration) option" where
  "leiden_iteration fuel g part gamma r =
     (case move_nodes fuel g part gamma r of
        None \<Rightarrow> None
      | Some (Inl e) \<Rightarrow> Some (Inl e)
      | Some (Inr (part1, r1)) \<Rightarrow>
          if length part1 = length (vertices g) then Some (Inr (Break part1 r1))
          else (case refine_partition g part1 gamma r1 of
                  (Inl e, r2) \<Rightarrow> Some (Inl e)
                | (Inr refined_part, r2) \<Rightarrow>
                    (let g' = aggregate_graph g refined_part
                     in Some (Inr (Continue g' (lift_partition g' part1) r2)))))"


text \<open>
  The objective on the leaves: the communities of a partition of an aggregated graph as
  communities of the vertices of the input graph.
\<close>

definition leaf_partition :: "partition \<Rightarrow> partition" where
  "leaf_partition part = map (\<lambda>community. map (\<lambda>leaf. [leaf]) (flatten community)) part"

subsection \<open>Well-formed graphs and partitions\<close>

text \<open>
  A partition of the vertices \<open>vs\<close>: non-empty communities that are sets, pairwise disjoint,
  and cover exactly \<open>vs\<close>.
\<close>

definition partition_of :: "node list \<Rightarrow> partition \<Rightarrow> bool" where
  "partition_of vs part =
     ([] \<notin> set part \<and> distinct (concat part) \<and> set (concat part) = set vs)"

text \<open>
  An input graph: its vertices are distinct single ids, and its weights, stored in both
  directions, are not negative.
\<close>

definition leaf_graph :: "graph \<Rightarrow> bool" where
  "leaf_graph g0 =
     (distinct (vertices g0) \<and> list_all (\<lambda>v. length v = 1) (vertices g0)
      \<and> symmetric g0 \<and> (\<forall>a b. 0 \<le> edge_get g0 (a, b)))"

text \<open>
  \<open>g\<close> is an aggregation of the input graph \<open>g0\<close>: its nodes are non-empty tuples that share
  no leaf and hold the leaves of \<open>g0\<close>, and the weight between two different nodes is the
  sum of the weights of \<open>g0\<close> between their leaves.
\<close>

definition aggregates :: "graph \<Rightarrow> graph \<Rightarrow> bool" where
  "aggregates g0 g =
     ([] \<notin> set (vertices g) \<and> distinct (concat (vertices g))
      \<and> set (concat (vertices g)) = set (concat (vertices g0))
      \<and> symmetric g
      \<and> list_all (\<lambda>s1. list_all (\<lambda>s2. s1 = s2 \<or>
            edge_get g (s1, s2) = (\<Sum>a\<leftarrow>s1. \<Sum>b\<leftarrow>s2. edge_get g0 ([a], [b])))
          (vertices g)) (vertices g))"


text \<open>Every community of \<open>fine\<close> lies within a community of \<open>coarse\<close>.\<close>

definition refines :: "partition \<Rightarrow> partition \<Rightarrow> bool" where
  "refines fine coarse = list_all (\<lambda>c. list_ex (\<lambda>d. set c \<subseteq> set d) coarse) fine"

text \<open>A graph for examples: two vertices joined by an edge of weight 1.\<close>

definition pair_graph :: graph where
  "pair_graph = \<lparr>vertices = [[''a''], [''b'']],
                  edges = map_of [(([''a''], [''b'']), 1), (([''b''], [''a'']), 1)]\<rparr>"


section \<open>Markdown chunker (utils/file_parsers/RAGSplit.py)\<close>

text \<open>
  Strings are lists of characters; a character stands for a code point below 256.
  \<^verbatim>\<open>str.strip()\<close> removes the characters for which \<^verbatim>\<open>str.isspace\<close> holds from both ends.
\<close>

definition is_space :: "char \<Rightarrow> bool" where
  "is_space c = (of_char c \<in> {9, 10, 11, 12, 13, 28, 29, 30, 31, 32, 133, 160 :: nat})"

definition strip :: "string \<Rightarrow> string" where
  "strip s = rev (dropWhile is_space (rev (dropWhile is_space s)))"

definition startswith :: "string \<Rightarrow> string \<Rightarrow> bool" where
  "startswith s p = (take (length p) s = p)"

definition nl :: char where
  "nl = CHR 0x0A"

text \<open>
  \<^verbatim>\<open>page.split("\n\n")\<close>: the page is cut at every occurrence of two newlines, scanning from
  the left; the second argument is the piece collected so far.
\<close>

fun split_nn :: "string \<Rightarrow> string \<Rightarrow> string list" where
  "split_nn [] acc = [acc]"
| "split_nn [c] acc = [acc @ [c]]"
| "split_nn (c # d # cs) acc =
     (if c = nl \<and> d = nl then acc # split_nn cs [] else split_nn (d # cs) (acc @ [c]))"

text \<open>
  An emitted chunk: the dictionary with the keys \<^verbatim>\<open>h1, h2, h3, body, ref\<close>. \<^verbatim>\<open>ref\<close> is
  \<^verbatim>\<open>list(pages)\<close>, kept as the set of page indices because the order in which Python lists a
  set is not fixed by the source.
\<close>

record chunk =
  h1 :: string
  h2 :: string
  h3 :: string
  body :: string
  ref :: "nat set"

text \<open>
  The local variables of \<^verbatim>\<open>split\<close>: \<^verbatim>\<open>h1, h2, h3, body, pages, last, results\<close>.
\<close>

record split_state =
  cur_h1 :: string
  cur_h2 :: string
  cur_h3 :: string
  cur_body :: string
  pages :: "nat set"
  last_kind :: nat
  results :: "chunk list"

definition init_state :: split_state where
  "init_state = \<lparr>cur_h1 = [], cur_h2 = [], cur_h3 = [], cur_body = [], pages = {},
                  last_kind = 1, results = []\<rparr>"

text \<open>\<^verbatim>\<open>results.append({h1, h2, h3, body, ref: list(pages)})\<close>\<close>

definition append_chunk :: "split_state \<Rightarrow> split_state" where
  "append_chunk s =
     s\<lparr>results := results s @
          [\<lparr>h1 = cur_h1 s, h2 = cur_h2 s, h3 = cur_h3 s, body = cur_body s, ref = pages s\<rparr>]\<rparr>"

text \<open>The flush in front of a heading of another level: \<^verbatim>\<open>if last == 4: append; pages = set()\<close>.\<close>

definition flush_if_body :: "split_state \<Rightarrow> split_state" where
  "flush_if_body s = (if last_kind s = 4 then (append_chunk s)\<lparr>pages := {}\<rparr> else s)"

text \<open>One pass of the inner loop body, for the section \<open>line\<close> of the page with index \<open>idx\<close>.\<close>

definition process_line :: "int \<Rightarrow> split_state \<Rightarrow> nat \<times> string \<Rightarrow> split_state" where
  "process_line max_chunk_size s sec =
     (let idx = fst sec; line = snd sec in
      if startswith line ''# '' then
        (if last_kind s = 1
         then s\<lparr>cur_h1 := (if cur_h1 s \<noteq> [] then cur_h1 s @ '' '' @ strip (drop 2 line)
                              else strip (drop 2 line))\<rparr>
         else (flush_if_body s)\<lparr>cur_h1 := strip (drop 2 line), cur_h2 := [], cur_h3 := [],
                                   cur_body := [], last_kind := 1\<rparr>)
      else if startswith line ''## '' then
        (if last_kind s = 2
         then s\<lparr>cur_h2 := (if cur_h2 s \<noteq> [] then cur_h2 s @ '' '' @ strip (drop 3 line)
                              else strip (drop 3 line))\<rparr>
         else (flush_if_body s)\<lparr>cur_h2 := strip (drop 3 line), cur_h3 := [],
                                   cur_body := [], last_kind := 2\<rparr>)
      else if startswith line ''### '' then
        (if last_kind s = 3
         then s\<lparr>cur_h3 := (if cur_h3 s \<noteq> [] then cur_h3 s @ '' '' @ strip (drop 4 line)
                              else strip (drop 4 line))\<rparr>
         else (flush_if_body s)\<lparr>cur_h3 := strip (drop 4 line), cur_body := [], last_kind := 3\<rparr>)
      else
        (if last_kind s = 4
         then (let line' = strip line in
               if cur_body s \<noteq> [] \<and> int (length (cur_body s)) + int (length line') > max_chunk_size
               then (append_chunk s)\<lparr>pages := {idx}, cur_body := line'\<rparr>
               else s\<lparr>cur_body := (if cur_body s \<noteq> [] then cur_body s @ [nl, nl] @ line'
                                     else line'),
                       pages := pages s \<union> {idx}\<rparr>)
         else s\<lparr>cur_body := strip line, last_kind := 4, pages := pages s \<union> {idx}\<rparr>))"

text \<open>
  \<^verbatim>\<open>for idx, page_split in enumerate(line_splits): for line in page_split\<close>: the sections of
  all pages in order, each with the index of its page.
\<close>

definition sections :: "string list \<Rightarrow> (nat \<times> string) list" where
  "sections data =
     concat (map (\<lambda>(idx, page). map (Pair idx) (split_nn page [])) (enumerate 0 data))"

definition run_lines :: "int \<Rightarrow> split_state \<Rightarrow> (nat \<times> string) list \<Rightarrow> split_state" where
  "run_lines max_chunk_size s secs = foldl (process_line max_chunk_size) s secs"

text \<open>After the loop: \<^verbatim>\<open>if last == 4: results.append(...)\<close>.\<close>

definition finish :: "split_state \<Rightarrow> chunk list" where
  "finish s = results (if last_kind s = 4 then append_chunk s else s)"

text \<open>
  \<^verbatim>\<open>split(data, max_chunk_size)\<close>. The two keys that the last loop adds to every result are
  functions of the chunk: \<open>Content\<close> below, and the page hint, which renders \<open>ref\<close>.
\<close>

definition split :: "string list \<Rightarrow> int \<Rightarrow> chunk list" where
  "split data max_chunk_size = finish (run_lines max_chunk_size init_state (sections data))"

definition Content :: "chunk \<Rightarrow> string" where
  "Content c =
     (if h1 c \<noteq> [] then ''# '' @ h1 c @ [nl, nl] else []) @
     (if h2 c \<noteq> [] then ''## '' @ h2 c @ [nl, nl] else []) @
     (if h3 c \<noteq> [] then ''### '' @ h3 c @ [nl, nl] else []) @ body c"

text \<open>
  The condition of the size-triggered flush: the section is no heading, a body is being
  collected, it is not empty, and it would pass the budget with the stripped section.
\<close>

definition size_flush :: "int \<Rightarrow> split_state \<Rightarrow> string \<Rightarrow> bool" where
  "size_flush max_chunk_size s line =
     (\<not> startswith line ''# '' \<and> \<not> startswith line ''## '' \<and> \<not> startswith line ''### '' \<and>
      last_kind s = 4 \<and> cur_body s \<noteq> [] \<and>
      int (length (cur_body s)) + int (length (strip line)) > max_chunk_size)"

section \<open>Retry loop of the community summariser (graphrag/index/KG_5_CreateCommunitySummaries.py)\<close>

text \<open>
  \<^verbatim>\<open>sep in text\<close> and \<^verbatim>\<open>text.split(sep, maxsplit = 1)\<close>: the parts before and after the first
  occurrence of \<open>sep\<close>, or \<open>None\<close> when there is none.
\<close>

fun split_once :: "string \<Rightarrow> string \<Rightarrow> (string \<times> string) option" where
  "split_once sep [] = (if sep = [] then Some ([], []) else None)"
| "split_once sep (c # cs) =
     (if startswith (c # cs) sep then Some ([], drop (length sep) (c # cs))
      else map_option (\<lambda>(b, a). (c # b, a)) (split_once sep cs))"

text \<open>\<^verbatim>\<open>text.strip(chars)\<close>\<close>

definition strip_chars :: "string \<Rightarrow> string \<Rightarrow> string" where
  "strip_chars chars s =
     rev (dropWhile (\<lambda>c. c \<in> set chars) (rev (dropWhile (\<lambda>c. c \<in> set chars) s)))"

text \<open>\<^verbatim>\<open>len(v)\<close>, which raises TypeError on a value without length.\<close>

fun py_len :: "pyval \<Rightarrow> nat option" where
  "py_len (PyStr s) = Some (length s)"
| "py_len (PyList l) = Some (length l)"
| "py_len (PyDict d) = Some (length d)"
| "py_len v = None"

text \<open>What one pass of a retry loop does: \<^verbatim>\<open>continue\<close>, \<^verbatim>\<open>break\<close> with a value, or raise.\<close>

datatype 'a step = Retry | Done 'a | Raise py_error

text \<open>
  The \<^verbatim>\<open>except\<close> branch of the loop in \<^verbatim>\<open>sum_vertex\<close>, on the text of the response: it reads
  label and description off the text around \<^verbatim>\<open>"description":\<close> and \<^verbatim>\<open>"label":\<close>.
\<close>

definition read_anyway :: "string \<Rightarrow> (pyval \<times> pyval) step" where
  "read_anyway txt =
     (case split_once (CHR 0x22 # ''description'' @ [CHR 0x22, CHR '':'']) txt of
        None \<Rightarrow> Retry
      | Some (before, after) \<Rightarrow>
          if CHR ''}'' \<in> set before \<or> CHR ''{'' \<in> set after then Retry
          else (case split_once (CHR 0x22 # ''label'' @ [CHR 0x22, CHR '':'']) before of
                  None \<Rightarrow> Retry
                | Some (b, label) \<Rightarrow>
                    Done (PyStr (strip_chars ([CHR '' '', CHR '','', CHR 0x22, CHR 0x27, nl]) label),
                          PyStr (strip_chars ([CHR '' '', CHR 0x22, CHR 0x27, CHR ''}'', nl]) after))))"

text \<open>
  The checks after a successful \<^verbatim>\<open>eval\<close>:
  \<^verbatim>\<open>if not "label" in ai_summary or not "description" in ai_summary: continue\<close> and
  \<^verbatim>\<open>if len(ai_summary["label"]) < 5 or len(ai_summary["description"]) < 20: continue\<close>.
  \<^verbatim>\<open>in\<close> raises TypeError on a value that is no container, and so does a subscript with a
  string on a string or a list.
\<close>

definition check_evaluated :: "pyval \<Rightarrow> (pyval \<times> pyval) step" where
  "check_evaluated v =
     (case v of
        PyDict d \<Rightarrow>
          (case (map_of d ''label'', map_of d ''description'') of
             (Some l, Some ds) \<Rightarrow>
               (case py_len l of
                  None \<Rightarrow> Raise TypeError
                | Some n \<Rightarrow>
                    if n < 5 then Retry
                    else (case py_len ds of
                            None \<Rightarrow> Raise TypeError
                          | Some m \<Rightarrow> if m < 20 then Retry else Done (l, ds)))
           | _ \<Rightarrow> Retry)
      | PyStr s \<Rightarrow>
          (if split_once ''label'' s = None \<or> split_once ''description'' s = None then Retry
           else Raise TypeError)
      | PyList l \<Rightarrow>
          (if PyStr ''label'' \<notin> set l \<or> PyStr ''description'' \<notin> set l then Retry
           else Raise TypeError)
      | _ \<Rightarrow> Raise TypeError)"

text \<open>A response is its text and the outcome of \<^verbatim>\<open>eval\<close> on it.\<close>

definition check_summary :: "string \<times> pyval option \<Rightarrow> (pyval \<times> pyval) step" where
  "check_summary r = (case snd r of None \<Rightarrow> read_anyway (fst r) | Some v \<Rightarrow> check_evaluated v)"

text \<open>
  The loop \<^verbatim>\<open>while True\<close> of \<^verbatim>\<open>sum_vertex\<close>. The source puts no bound on it, so the model
  takes fuel: \<open>None\<close> says that the fuel ran out before the loop was left. \<open>i\<close> counts the
  LLM calls made so far, and the result carries the number of calls at the exit.
\<close>

fun summary_attempts :: "nat \<Rightarrow> (nat \<Rightarrow> string \<times> pyval option) \<Rightarrow> nat
    \<Rightarrow> ((pyval \<times> pyval) step \<times> nat) option" where
  "summary_attempts 0 llm i = None"
| "summary_attempts (Suc fuel) llm i =
     (case check_summary (llm i) of
        Retry \<Rightarrow> summary_attempts fuel llm (Suc i)
      | r \<Rightarrow> Some (r, Suc i))"

text \<open>
  An LLM for the summariser whose first eleven responses are empty texts and whose twelfth
  is a well-formed summary.
\<close>

definition late_summary_llm :: "nat \<Rightarrow> string \<times> pyval option" where
  "late_summary_llm i =
     (if i < 11 then ([], None)
      else ([], Some (PyDict [(''label'', PyStr ''Graphs''),
                              (''description'', PyStr ''Communities of a knowledge graph'')])))"

section \<open>Knowledge-graph builder (graphrag/index/KG_2_ConvertTextsToGraph.py)\<close>

text \<open>
  The character class of the pattern in \<^verbatim>\<open>_insert_relations\<close>:
  \<^verbatim>\<open>A-Za-z0-9_\-.@()+=;$!*%:,}{\]["\<close>.
\<close>

definition allowed_char :: "char \<Rightarrow> bool" where
  "allowed_char c =
     ((of_char (CHR ''A'') \<le> (of_char c :: nat) \<and> (of_char c :: nat) \<le> of_char (CHR ''Z''))
      \<or> (of_char (CHR ''a'') \<le> (of_char c :: nat) \<and> (of_char c :: nat) \<le> of_char (CHR ''z''))
      \<or> (of_char (CHR ''0'') \<le> (of_char c :: nat) \<and> (of_char c :: nat) \<le> of_char (CHR ''9''))
      \<or> c \<in> set ''_-.@()+=;$!*%:,}{][''
      \<or> c = CHR 0x22)"

text \<open>
  \<^verbatim>\<open>sub(r'[^...]+', '', s.replace(" ", "_"))\<close>: every space becomes an underscore, then every
  run of characters outside the class is deleted.
\<close>

definition sanitise :: "string \<Rightarrow> string" where
  "sanitise s = filter allowed_char (map (\<lambda>c. if c = CHR '' '' then CHR ''_'' else c) s)"

text \<open>
  The same on a value of a relation dictionary: \<^verbatim>\<open>.replace\<close> exists on a string only, any
  other value raises AttributeError.
\<close>

definition clean :: "pyval \<Rightarrow> string option" where
  "clean v = (case v of PyStr s \<Rightarrow> Some (sanitise s) | _ \<Rightarrow> None)"

type_synonym counts = "(string \<times> int) list"

text \<open>\<^verbatim>\<open>_update_source_dict\<close>\<close>

fun update_source_dict :: "counts \<Rightarrow> counts \<Rightarrow> counts" where
  "update_source_dict origin [] = origin"
| "update_source_dict origin ((source, cnt) # rest) =
     update_source_dict (dict_set origin source (dict_get origin source 0 + cnt)) rest"

text \<open>
  The graph store as far as the builder touches it: the \<^verbatim>\<open>Node\<close> collection by \<^verbatim>\<open>_key\<close>, the
  \<^verbatim>\<open>Relation\<close> collection by \<^verbatim>\<open>(_from, _to, label)\<close> with its weight, and the \<^verbatim>\<open>is_graph\<close>
  flag of the File vertices. The store is taken to answer every request; an exception of
  the client is caught by the \<^verbatim>\<open>try\<close> of the source and persists nothing more.
\<close>

record kg_node =
  n_label :: string
  n_source_ref :: counts
  n_source :: counts
  n_document :: counts

record kg_store =
  Node :: "(string \<times> kg_node) list"
  Relation :: "((string \<times> string \<times> string) \<times> int) list"
  is_graph :: "string set"

definition node_id :: "string \<Rightarrow> string" where
  "node_id key = ''Node/'' @ key"

text \<open>The lookup of a node by key followed by \<^verbatim>\<open>add_vertex\<close> or \<^verbatim>\<open>update_vertex\<close>.\<close>

definition upsert_node :: "string \<Rightarrow> counts \<Rightarrow> counts \<Rightarrow> counts \<Rightarrow> kg_store \<Rightarrow> kg_store" where
  "upsert_node key source_ref source document store =
     (case map_of (Node store) key of
        None \<Rightarrow>
          store\<lparr>Node := Node store @
            [(key, \<lparr>n_label = map (\<lambda>c. if c = CHR ''_'' then CHR '' '' else c) key,
                    n_source_ref = source_ref, n_source = source, n_document = document\<rparr>)]\<rparr>
      | Some n \<Rightarrow>
          store\<lparr>Node := dict_set (Node store) key
            (n\<lparr>n_source := update_source_dict (n_source n) source,
               n_source_ref := update_source_dict (n_source_ref n) source_ref,
               n_document := update_source_dict (n_document n) document\<rparr>)\<rparr>)"

text \<open>The lookup of the edge followed by \<^verbatim>\<open>add_edge\<close> with weight 1 or \<^verbatim>\<open>update_edge\<close>.\<close>

definition upsert_edge :: "string \<Rightarrow> string \<Rightarrow> string \<Rightarrow> kg_store \<Rightarrow> kg_store" where
  "upsert_edge from_id to_id label store =
     (case map_of (Relation store) (from_id, to_id, label) of
        None \<Rightarrow> store\<lparr>Relation := Relation store @ [((from_id, to_id, label), 1)]\<rparr>
      | Some w \<Rightarrow> store\<lparr>Relation := dict_set (Relation store) (from_id, to_id, label) (w + 1)\<rparr>)"

text \<open>
  \<^verbatim>\<open>_insert_relations\<close>. The result is the store as the call leaves it and the exception
  that ended the call, if any.
\<close>

fun insert_relations :: "pyval list \<Rightarrow> counts \<Rightarrow> counts \<Rightarrow> counts \<Rightarrow> kg_store
    \<Rightarrow> kg_store \<times> py_error option" where
  "insert_relations [] source_ref source document store = (store, None)"
| "insert_relations (relation # rest) source_ref source document store =
     (case relation of
        PyDict d \<Rightarrow>
          (case (map_of d ''From'', map_of d ''To'', map_of d ''Relation'') of
             (Some f, Some t, Some r) \<Rightarrow>
               (case clean f of
                  None \<Rightarrow> (store, Some AttributeError)
                | Some f' \<Rightarrow>
                   (case clean t of
                      None \<Rightarrow> (store, Some AttributeError)
                    | Some t' \<Rightarrow>
                       (case clean r of
                          None \<Rightarrow> (store, Some AttributeError)
                        | Some r' \<Rightarrow>
                            if f' = [] \<or> t' = [] \<or> r' = []
                            then insert_relations rest source_ref source document store
                            else if f' = t'
                            then insert_relations rest source_ref source document store
                            else insert_relations rest source_ref source document
                                   (upsert_edge (node_id f') (node_id t') r'
                                     (upsert_node t' source_ref source document
                                       (upsert_node f' source_ref source document store))))))
           | _ \<Rightarrow> insert_relations rest source_ref source document store)
      | _ \<Rightarrow> insert_relations rest source_ref source document store)"

text \<open>Python's truth value of an object, for \<^verbatim>\<open>any(relations)\<close>.\<close>

fun truthy :: "pyval \<Rightarrow> bool" where
  "truthy PyNone = False"
| "truthy (PyBool b) = b"
| "truthy (PyInt n) = (n \<noteq> 0)"
| "truthy (PyStr s) = (s \<noteq> [])"
| "truthy (PyList l) = (l \<noteq> [])"
| "truthy (PyDict d) = (d \<noteq> [])"

text \<open>
  The test that leaves the retry loop of \<^verbatim>\<open>generate_ner_results\<close>, on the value that
  \<^verbatim>\<open>_try_get_relations\<close> returns (\<open>PyNone\<close> when it gives up):
  \<^verbatim>\<open>type(relations) == list and any(relations) and type(relations[0]) == dict\<close>.
\<close>

definition accept_relations :: "pyval \<Rightarrow> pyval list option" where
  "accept_relations relations =
     (case relations of
        PyList l \<Rightarrow>
          (if (\<exists>x\<in>set l. truthy x) \<and> (case l of PyDict d # _ \<Rightarrow> True | _ \<Rightarrow> False)
           then Some l else None)
      | _ \<Rightarrow> None)"

text \<open>
  \<^verbatim>\<open>for _ in range(8)\<close>: the passes still to run, the parsed response of each pass, and the
  number of LLM calls made so far. \<open>None\<close> is the \<^verbatim>\<open>else\<close> branch of the loop.
\<close>

fun ner_attempts :: "nat list \<Rightarrow> (nat \<Rightarrow> pyval) \<Rightarrow> nat \<Rightarrow> pyval list option \<times> nat" where
  "ner_attempts [] llm calls = (None, calls)"
| "ner_attempts (i # rest) llm calls =
     (case accept_relations (llm i) of
        Some l \<Rightarrow> (Some l, Suc calls)
      | None \<Rightarrow> ner_attempts rest llm (Suc calls))"

text \<open>
  \<^verbatim>\<open>generate_ner_results(content, file_key, source, document)\<close>: the store it leaves, the
  exception that ended it, and the number of LLM calls.
\<close>

definition generate_ner_results ::
    "(nat \<Rightarrow> pyval) \<Rightarrow> string \<Rightarrow> counts \<Rightarrow> counts \<Rightarrow> kg_store
     \<Rightarrow> (kg_store \<times> py_error option) \<times> nat" where
  "generate_ner_results llm file_key source document store =
     (case ner_attempts [0..<8] llm 0 of
        (None, calls) \<Rightarrow> ((store\<lparr>is_graph := insert file_key (is_graph store)\<rparr>, None), calls)
      | (Some relations, calls) \<Rightarrow>
          (case insert_relations relations [(file_key, 1), (''_total'', 1)] source document store of
             (store', None) \<Rightarrow> ((store'\<lparr>is_graph := insert file_key (is_graph store')\<rparr>, None), calls)
           | (store', Some e) \<Rightarrow> ((store', Some e), calls)))"

text \<open>
  The invariant of the persisted graph: node keys and the three strings of every edge are
  non-empty and inside the character class, and no edge joins a node to itself.
\<close>

definition clean_string :: "string \<Rightarrow> bool" where
  "clean_string s = (s \<noteq> [] \<and> (\<forall>c\<in>set s. allowed_char c))"

definition kg_invariant :: "kg_store \<Rightarrow> bool" where
  "kg_invariant store =
     ((\<forall>k\<in>fst ` set (Node store). clean_string k)
      \<and> (\<forall>e\<in>fst ` set (Relation store).
            \<exists>f t. fst e = node_id f \<and> fst (snd e) = node_id t \<and> clean_string f \<and> clean_string t
                  \<and> clean_string (snd (snd e)) \<and> f \<noteq> t \<and> fst e \<noteq> fst (snd e)))"

section \<open>PDF stream predictors (utils/file_parsers/pdfParser.py)\<close>

text \<open>
  \<^verbatim>\<open>for i in range(0, len(data), columns + 1):
      data_rows.append((data[i], bytearray(data[i + 1 : i + columns + 1])))\<close>
  A row is its tag byte and the (possibly short) slice of \<open>columns\<close> bytes after it.
\<close>

fun data_rows :: "nat \<Rightarrow> nat list \<Rightarrow> (nat \<times> nat list) list" where
  "data_rows columns [] = []"
| "data_rows columns (t # rest) = (t, take columns rest) # data_rows columns (drop columns rest)"

text \<open>
  Predictor 11: \<^verbatim>\<open>prior = 0; for value in line: prior = (prior + value) % 256; data.append(value)\<close>.
  The arguments are the rest of the line, \<open>prior\<close> and the output so far.
\<close>

fun sub_line :: "nat list \<Rightarrow> nat \<Rightarrow> nat list \<Rightarrow> nat list" where
  "sub_line [] prior out = out"
| "sub_line (v # line) prior out = sub_line line ((prior + v) mod 256) (out @ [v])"

fun sub_lines :: "nat list list \<Rightarrow> nat list \<Rightarrow> nat list" where
  "sub_lines [] out = out"
| "sub_lines (line # lines) out = sub_lines lines (sub_line line 0 out)"

text \<open>
  Predictor 12: \<^verbatim>\<open>for i in range(columns): up[i] = (up[i] + line[i]) % 256; data.append(up[i])\<close>.
  The first argument is the list of indices still to visit; an index outside \<open>line\<close>
  raises IndexError as in Python.
\<close>

fun up_row :: "nat list \<Rightarrow> nat list \<Rightarrow> nat list \<Rightarrow> nat list \<Rightarrow> py_error + (nat list \<times> nat list)" where
  "up_row [] line up out = Inr (up, out)"
| "up_row (i # idxs) line up out =
     (if i < length up \<and> i < length line
      then (let v = (up ! i + line ! i) mod 256 in up_row idxs line (up[i := v]) (out @ [v]))
      else Inl IndexError)"

fun up_rows :: "nat \<Rightarrow> nat list list \<Rightarrow> nat list \<Rightarrow> nat list \<Rightarrow> py_error + nat list" where
  "up_rows columns [] up out = Inr out"
| "up_rows columns (line # lines) up out =
     (case up_row [0..<columns] line up out of
        Inl e \<Rightarrow> Inl e
      | Inr (up', out') \<Rightarrow> up_rows columns lines up' out')"

text \<open>
  Predictor 13: \<^verbatim>\<open>prior = 0
  for i in range(columns):
      up[i] = (line[i] + (prior + up[i]) // 2) % 256; prior = up[i]; data.append(up[i])\<close>
\<close>

fun avg_row :: "nat list \<Rightarrow> nat list \<Rightarrow> nat list \<Rightarrow> nat \<Rightarrow> nat list \<Rightarrow> py_error + (nat list \<times> nat list)" where
  "avg_row [] line up prior out = Inr (up, out)"
| "avg_row (i # idxs) line up prior out =
     (if i < length up \<and> i < length line
      then (let v = (line ! i + (prior + up ! i) div 2) mod 256
            in avg_row idxs line (up[i := v]) v (out @ [v]))
      else Inl IndexError)"

fun avg_rows :: "nat \<Rightarrow> nat list list \<Rightarrow> nat list \<Rightarrow> nat list \<Rightarrow> py_error + nat list" where
  "avg_rows columns [] up out = Inr out"
| "avg_rows columns (line # lines) up out =
     (case avg_row [0..<columns] line up 0 out of
        Inl e \<Rightarrow> Inl e
      | Inr (up', out') \<Rightarrow> avg_rows columns lines up' out')"

text \<open>
  \<^verbatim>\<open>predictor(data, predictor, colors, bits, columns)\<close>. Bytes are naturals below 256.
  \<^verbatim>\<open>bytes(columns)\<close> raises ValueError for a negative count, \<^verbatim>\<open>data_rows.pop()\<close>
  raises IndexError on an empty list, and every predictor value other than 1, 10, 11, 12
  and 13 ends in NotImplementedError.
\<close>

definition predictor :: "nat list \<Rightarrow> int \<Rightarrow> int \<Rightarrow> int \<Rightarrow> int \<Rightarrow> py_error + nat list" where
  "predictor data pred colors bits columns =
     (if colors \<noteq> 1 then Inl NotImplementedError
      else if bits \<noteq> 8 then Inl NotImplementedError
      else if pred = 1 then Inr data
      else if pred = 2 then Inl NotImplementedError
      else if columns < 0 then Inl ValueError
      else (let c = nat columns;
                rows = data_rows c (data @ replicate c 0)
            in if rows = [] then Inl IndexError
               else (let lines = map snd (butlast rows)
                     in if pred = 10 then Inr (concat lines)
                        else if pred = 11 then Inr (sub_lines lines [])
                        else if pred = 12 then up_rows c lines (replicate c 0) []
                        else if pred = 13 then avg_rows c lines (replicate c 0) []
                        else Inl NotImplementedError)))"

text \<open>
  \<^verbatim>\<open>_flate_decode\<close> after zlib's \<^verbatim>\<open>decompress\<close> (an external library, so the
  decompressed stream is the argument). \<open>parms\<close> is the optional /DecodeParms dictionary,
  whose missing entries default to Predictor 1, Colors 1, BitsPerComponent 8, Columns 1.
\<close>

record decode_parms =
  Predictor :: "int option"
  Colors :: "int option"
  BitsPerComponent :: "int option"
  Columns :: "int option"

definition flate_decode :: "nat list \<Rightarrow> decode_parms option \<Rightarrow> py_error + nat list" where
  "flate_decode stream parms =
     (case parms of
        None \<Rightarrow> Inr stream
      | Some p \<Rightarrow> predictor stream
          (case Predictor p of None \<Rightarrow> 1 | Some v \<Rightarrow> v)
          (case Colors p of None \<Rightarrow> 1 | Some v \<Rightarrow> v)
          (case BitsPerComponent p of None \<Rightarrow> 8 | Some v \<Rightarrow> v)
          (case Columns p of None \<Rightarrow> 1 | Some v \<Rightarrow> v))"

text \<open>
  The PNG reconstruction functions, written from the PNG filter definitions for one byte
  per pixel: \<open>Up\<close> adds the byte of the row before, \<open>Sub\<close> adds the reconstructed byte to the left,
  \<open>Average\<close> adds the floor of the mean of the left and the upper byte.
\<close>

definition png_up :: "nat list \<Rightarrow> nat list \<Rightarrow> nat list" where
  "png_up prev filt = map2 (\<lambda>b x. (x + b) mod 256) prev filt"

fun png_sub :: "nat \<Rightarrow> nat list \<Rightarrow> nat list" where
  "png_sub left [] = []"
| "png_sub left (x # xs) = (let r = (x + left) mod 256 in r # png_sub r xs)"

fun png_average :: "nat \<Rightarrow> nat list \<Rightarrow> nat list \<Rightarrow> nat list" where
  "png_average left (b # prev) (x # filt) =
     (let r = (x + (left + b) div 2) mod 256 in r # png_average r prev filt)"
| "png_average left prev filt = []"

fun png_recon :: "(nat list \<Rightarrow> nat list \<Rightarrow> nat list) \<Rightarrow> nat list \<Rightarrow> nat list list \<Rightarrow> nat list list" where
  "png_recon f prev [] = []"
| "png_recon f prev (r # rs) = (let y = f prev r in y # png_recon f y rs)"

text \<open>A well-formed predicted stream: \<open>n\<close> rows of one tag byte and \<open>columns\<close> payload bytes.\<close>

fun payloads :: "nat \<Rightarrow> nat \<Rightarrow> nat list \<Rightarrow> nat list list" where
  "payloads columns 0 data = []"
| "payloads columns (Suc n) data =
     take columns (tl data) # payloads columns n (drop (Suc columns) data)"

section \<open>Loader (graphrag/index/KG_1_LoadData.py, utils/file_parsers/zipExtractor.py)\<close>

text \<open>
  A path of the file system: a directory with its entries, or a file with what its bytes
  are to the parsers: the pages that the parser of its type returns, bytes on which the
  parser raises, or a zip archive with its members.
\<close>

datatype fs_path =
    Folder string "fs_path list"
  | Regular string file_content
and file_content =
    Pages "string list"
  | Unparsable
  | Members "fs_path list"

fun path_name :: "fs_path \<Rightarrow> string" where
  "path_name (Folder n entries) = n"
| "path_name (Regular n content) = n"

text \<open>
  \<^verbatim>\<open>Path.suffix\<close>: the name from its last dot on, when that dot is neither the first nor the
  last character; \<open>rfind_dot\<close> gives the position of the last dot.
\<close>

fun rfind_dot :: "string \<Rightarrow> nat option" where
  "rfind_dot [] = None"
| "rfind_dot (c # cs) =
     (case rfind_dot cs of
        Some i \<Rightarrow> Some (Suc i)
      | None \<Rightarrow> if c = CHR ''.'' then Some 0 else None)"

definition suffix :: "string \<Rightarrow> string" where
  "suffix n =
     (case rfind_dot n of
        None \<Rightarrow> []
      | Some i \<Rightarrow> if 0 < i \<and> i < length n - 1 then drop i n else [])"

text \<open>\<^verbatim>\<open>str.lower()\<close> on the letters A to Z.\<close>

definition lower :: "string \<Rightarrow> string" where
  "lower s = map (\<lambda>c. if 65 \<le> (of_char c :: nat) \<and> (of_char c :: nat) \<le> 90
                        then char_of (of_char c + 32 :: nat) else c) s"

text \<open>
  What the loader changes: the chunks inserted into the stores, each with the path of its
  file, and the number of temporary directories that exist.
\<close>

record loader_state =
  inserted :: "(string \<times> chunk) list"
  temp_dirs :: nat

text \<open>
  The recursive calls \<^verbatim>\<open>_load_file(path, arango_client, elastic_tuple)\<close> in the directory and
  the zip branch. \<^verbatim>\<open>_load_file\<close> has the five parameters \<^verbatim>\<open>config, file_path, arango_client,
  elastic_tuple, max_chunk_size\<close>, none with a default, so a call with three positional
  arguments raises TypeError before the body runs.
\<close>

definition load_file_3 :: "fs_path \<Rightarrow> loader_state \<Rightarrow> loader_state \<times> py_error option" where
  "load_file_3 path st = (st, Some TypeError)"

text \<open>\<^verbatim>\<open>for path in ....iterdir(): _load_file(path, arango_client, elastic_tuple)\<close>\<close>

fun load_entries :: "fs_path list \<Rightarrow> loader_state \<Rightarrow> loader_state \<times> py_error option" where
  "load_entries [] st = (st, None)"
| "load_entries (path # rest) st =
     (case load_file_3 path st of
        (st', None) \<Rightarrow> load_entries rest st'
      | (st', Some e) \<Rightarrow> (st', Some e))"

text \<open>
  \<^verbatim>\<open>with extracted_zip(file_path) as folder: ...\<close>. The generator creates a
  \<^verbatim>\<open>TemporaryDirectory\<close>, opens the archive (BadZipFile on other bytes) and calls
  \<^verbatim>\<open>zip_ref.extractall(tmp_path)\<close> with the \<^verbatim>\<open>TemporaryDirectory\<close> object itself, which is no
  path: \<^verbatim>\<open>os.fspath\<close> raises TypeError. The \<^verbatim>\<open>yield\<close> and the \<^verbatim>\<open>tmp_path.cleanup()\<close> after it
  are never reached, and no \<^verbatim>\<open>try\<close> surrounds them.
\<close>

definition extracted_zip :: "file_content \<Rightarrow> loader_state \<Rightarrow> loader_state \<times> py_error option" where
  "extracted_zip content st =
     (let st' = st\<lparr>temp_dirs := Suc (temp_dirs st)\<rparr>
      in case content of
           Members entries \<Rightarrow> (st', Some TypeError)
         | _ \<Rightarrow> (st', Some BadZipFile))"

text \<open>
  \<^verbatim>\<open>_load_file(config, file_path, arango_client, elastic_tuple, max_chunk_size)\<close> with a
  graph store. A parser that raises is logged, after which \<^verbatim>\<open>for text_chunk in data\<close> reads
  the unbound \<^verbatim>\<open>data\<close>.
\<close>

definition load_file :: "fs_path \<Rightarrow> int \<Rightarrow> loader_state \<Rightarrow> loader_state \<times> py_error option" where
  "load_file file_path max_chunk_size st =
     (if startswith (path_name file_path) ''~$'' then (st, None)
      else (case file_path of
              Folder n entries \<Rightarrow> load_entries entries st
            | Regular n content \<Rightarrow>
                if lower (suffix n) = ''.zip'' then extracted_zip content st
                else if lower (suffix n) \<in> {''.docx'', ''.md'', ''.pdf'', ''.txt''}
                then (if n \<in> fst ` set (inserted st) then (st, None)
                      else (case content of
                              Pages data \<Rightarrow>
                                (st\<lparr>inserted := inserted st @ map (Pair n) (split data max_chunk_size)\<rparr>,
                                 None)
                            | _ \<Rightarrow> (st, Some UnboundLocalError)))
                else (st, None)))"

section \<open>Retrieval strategies (graphrag/query/graphRAG_retriever.py)\<close>

datatype AllowedTypes = NONE | UNKNOWN | TEXT

record RetrievalAnswer =
  name :: string
  category :: string
  path :: string
  type :: AllowedTypes
  matchedContent :: string
  surroundingContent :: "string list"
  links :: "string list"

definition category_text :: string where
  "category_text = ''extracted data from multiple different files (sources)''"

text \<open>The record that every strategy returns alone when \<^verbatim>\<open>len(results) == 0\<close>.\<close>

definition no_documents :: RetrievalAnswer where
  "no_documents = \<lparr>name = ''NO DOCUMENTS FOUND'', category = category_text, path = [],
                    type = NONE, matchedContent = [], surroundingContent = [], links = []\<rparr>"

definition text_answer :: "string \<Rightarrow> string \<Rightarrow> string \<Rightarrow> RetrievalAnswer" where
  "text_answer n p content = \<lparr>name = n, category = category_text, path = p, type = TEXT,
                               matchedContent = content, surroundingContent = [], links = []\<rparr>"

text \<open>\<^verbatim>\<open>max_matches = 10 if max_matches is None else max(1, max_matches)\<close>\<close>

definition set_max_matches :: "int option \<Rightarrow> int" where
  "set_max_matches m = (case m of None \<Rightarrow> 10 | Some v \<Rightarrow> max 1 v)"

text \<open>\<^verbatim>\<open>confidence_cutoff = 0.04 if confidence_cutoff is None else max(0, min(1, confidence_cutoff))\<close>\<close>

definition set_cutoff :: "real option \<Rightarrow> real" where
  "set_cutoff c = (case c of None \<Rightarrow> 4 / 100 | Some v \<Rightarrow> max 0 (min 1 v))"

subsection \<open>NaiveRAG and NaiveGraphRAG\<close>

text \<open>
  A hit of the kNN search with the fields the naive strategies read. \<open>hit_source\<close> and
  \<open>hit_document\<close> are the key lists of the dictionaries that \<^verbatim>\<open>eval\<close> makes of the stored
  texts, \<open>None\<close> when \<^verbatim>\<open>eval\<close> raises.
\<close>

record knn_hit =
  hit_score :: real
  hit_source :: "string list option"
  hit_document :: "string list option"
  hit_content :: string

text \<open>
  The result loop of both naive strategies; \<open>rp\<close> stands for \<^verbatim>\<open>list(...).__repr__()\<close>.
  The loop breaks at the first hit below the cutoff.
\<close>

fun naive_results :: "(string list \<Rightarrow> string) \<Rightarrow> real \<Rightarrow> knn_hit list \<Rightarrow> RetrievalAnswer list
    \<Rightarrow> py_error + RetrievalAnswer list" where
  "naive_results rp cutoff [] answers = Inr answers"
| "naive_results rp cutoff (h # hs) answers =
     (if hit_score h < cutoff then Inr answers
      else (case hit_source h of
              None \<Rightarrow> Inl EvalError
            | Some src \<Rightarrow>
               (case hit_document h of
                  None \<Rightarrow> Inl EvalError
                | Some doc \<Rightarrow>
                    naive_results rp cutoff hs
                      (answers @ [text_answer (rp src) (rp doc) (hit_content h)]))))"

text \<open>
  The vector store is the function from the \<open>k\<close> of the query to the hits it returns.
\<close>

definition naive_graph_rag_retrieve ::
    "(string list \<Rightarrow> string) \<Rightarrow> (int \<Rightarrow> knn_hit list) \<Rightarrow> int option \<Rightarrow> real option
     \<Rightarrow> py_error + RetrievalAnswer list" where
  "naive_graph_rag_retrieve rp vector_db max_matches confidence_cutoff =
     (let mm = set_max_matches max_matches;
          cutoff = set_cutoff confidence_cutoff;
          communities = vector_db mm
      in case naive_results rp cutoff (sorted_desc hit_score communities) [] of
           Inl e \<Rightarrow> Inl e
         | Inr answers \<Rightarrow> Inr (if length answers = 0 then [no_documents] else answers))"

definition naive_rag_retrieve ::
    "(string list \<Rightarrow> string) \<Rightarrow> (int \<Rightarrow> knn_hit list) \<Rightarrow> int option \<Rightarrow> real option
     \<Rightarrow> py_error + RetrievalAnswer list" where
  "naive_rag_retrieve rp vector_db max_matches confidence_cutoff =
     (let mm = set_max_matches max_matches;
          cutoff = set_cutoff confidence_cutoff;
          communities = vector_db mm
      in case naive_results rp cutoff (sorted_desc hit_score communities) [] of
           Inl e \<Rightarrow> Inl e
         | Inr answers \<Rightarrow> Inr (if length answers = 0 then [no_documents] else answers))"

subsection \<open>GARAG\<close>

text \<open>
  A hit of the summary index: its score and the dictionary that \<^verbatim>\<open>eval\<close> makes of the stored
  \<^verbatim>\<open>source_ref\<close> text (\<open>None\<close> when \<^verbatim>\<open>eval\<close> raises).
\<close>

record summary_hit =
  s_score :: real
  s_source_ref :: "(string \<times> int) list option"

text \<open>
  \<^verbatim>\<open>community["_score"] * count / source_ref["_total"]\<close>: the subscript raises KeyError
  without the key, the division ZeroDivisionError on a zero total.
\<close>

definition contribution :: "real \<Rightarrow> int \<Rightarrow> (string \<times> int) list \<Rightarrow> py_error + real" where
  "contribution score cnt source_ref =
     (case map_of source_ref ''_total'' of
        None \<Rightarrow> Inl KeyError
      | Some tot \<Rightarrow>
          if tot = 0 then Inl ZeroDivisionError
          else Inr (score * real_of_int cnt / real_of_int tot))"

text \<open>\<^verbatim>\<open>for source, count in source_ref.items()\<close>, the third argument being the items left.\<close>

fun add_sources :: "real \<Rightarrow> (string \<times> int) list \<Rightarrow> (string \<times> int) list \<Rightarrow> (string \<times> real) list
    \<Rightarrow> py_error + (string \<times> real) list" where
  "add_sources score source_ref [] source_refs = Inr source_refs"
| "add_sources score source_ref ((source, cnt) # items) source_refs =
     (if source = ''_total'' then add_sources score source_ref items source_refs
      else (case contribution score cnt source_ref of
              Inl e \<Rightarrow> Inl e
            | Inr c \<Rightarrow>
                add_sources score source_ref items
                  (dict_set source_refs source (dict_get source_refs source 0 + c))))"

text \<open>\<^verbatim>\<open>for community in valid_communities["hits"]["hits"]\<close>; a hit below the cutoff is skipped.\<close>

fun accumulate :: "real \<Rightarrow> summary_hit list \<Rightarrow> (string \<times> real) list
    \<Rightarrow> py_error + (string \<times> real) list" where
  "accumulate cutoff [] source_refs = Inr source_refs"
| "accumulate cutoff (h # hs) source_refs =
     (if s_score h < cutoff then accumulate cutoff hs source_refs
      else (case s_source_ref h of
              None \<Rightarrow> Inl EvalError
            | Some source_ref \<Rightarrow>
                (case add_sources (s_score h) source_ref source_ref source_refs of
                   Inl e \<Rightarrow> Inl e
                 | Inr source_refs' \<Rightarrow> accumulate cutoff hs source_refs')))"

text \<open>A File vertex of the graph store, with the key lists of its two dictionaries.\<close>

record file_node =
  f_source :: "string list"
  f_document :: "string list"
  f_content :: string

text \<open>
  The second loop of \<^verbatim>\<open>_garag_retrieve\<close>. \<open>files\<close> is the query for a File by key;
  \<^verbatim>\<open>__next__()\<close> raises StopIteration when there is none.
\<close>

fun garag_results :: "(string list \<Rightarrow> string) \<Rightarrow> (string \<Rightarrow> file_node option)
    \<Rightarrow> (string \<times> real) list \<Rightarrow> int \<Rightarrow> RetrievalAnswer list \<Rightarrow> py_error + RetrievalAnswer list" where
  "garag_results rp files [] max_matches answers = Inr answers"
| "garag_results rp files (sr # rest) max_matches answers =
     (case files (fst sr) of
        None \<Rightarrow> Inl StopIteration
      | Some f \<Rightarrow>
          (let answers' = answers @ [text_answer (rp (f_source f)) (rp (f_document f)) (f_content f)];
               max_matches' = max_matches - 1
           in if max_matches' = 0 then Inr answers'
              else garag_results rp files rest max_matches' answers'))"

definition garag_retrieve ::
    "(string list \<Rightarrow> string) \<Rightarrow> (string \<Rightarrow> file_node option) \<Rightarrow> (int \<Rightarrow> summary_hit list)
     \<Rightarrow> int option \<Rightarrow> real option \<Rightarrow> py_error + RetrievalAnswer list" where
  "garag_retrieve rp files vector_db max_matches confidence_cutoff =
     (let mm = set_max_matches max_matches;
          cutoff = set_cutoff confidence_cutoff;
          valid_communities = vector_db (mm * 2)
      in case accumulate cutoff valid_communities [] of
           Inl e \<Rightarrow> Inl e
         | Inr source_refs \<Rightarrow>
             (case garag_results rp files (sorted_desc snd source_refs) mm [] of
                Inl e \<Rightarrow> Inl e
              | Inr answers \<Rightarrow> Inr (if length answers = 0 then [no_documents] else answers)))"

subsection \<open>GraphRAG\<close>

text \<open>A community summary as the stitching loop reads it.\<close>

record community_node =
  c_content :: string
  c_source :: "string list"
  c_document :: "string list"

text \<open>
  \<^verbatim>\<open>while communities: community = communities.pop() ...\<close> and the final append. The first
  argument lists the communities in the order in which \<^verbatim>\<open>pop()\<close> takes them.
\<close>

fun stitch :: "community_node list \<Rightarrow> (string \<times> string set \<times> string set) list
    \<Rightarrow> string set \<Rightarrow> string set \<Rightarrow> int \<Rightarrow> string \<Rightarrow> (string \<times> string set \<times> string set) list" where
  "stitch [] informations current_source current_document current_len current_information =
     informations @ [(current_information, current_source, current_document)]"
| "stitch (c # cs) informations current_source current_document current_len current_information =
     (let len' = current_len + int (length (c_content c)) + 1
      in if len' \<ge> 4096
         then stitch cs (informations @ [(current_information, current_source, current_document)])
                (set (c_source c)) (set (c_document c)) (int (length (c_content c))) (c_content c)
         else stitch cs informations (current_source \<union> set (c_source c))
                (current_document \<union> set (c_document c)) len'
                (current_information @ [nl] @ c_content c))"

text \<open>
  The checks on one response in \<^verbatim>\<open>generate_community_information\<close>, on the outcome of
  \<^verbatim>\<open>eval\<close>: a dictionary with a string under \<^verbatim>\<open>information\<close> and an \<^verbatim>\<open>int\<close> under \<^verbatim>\<open>confidence\<close>
  is valid, everything else makes the loop continue.
\<close>

definition check_info :: "pyval option \<Rightarrow> (int \<times> string) option" where
  "check_info r =
     (case r of
        Some (PyDict d) \<Rightarrow>
          (case (map_of d ''confidence'', map_of d ''information'') of
             (Some c, Some i) \<Rightarrow>
               (case i of
                  PyStr s \<Rightarrow> (case c of PyInt n \<Rightarrow> Some (n, s) | _ \<Rightarrow> None)
                | _ \<Rightarrow> None)
           | _ \<Rightarrow> None)
      | _ \<Rightarrow> None)"

text \<open>
  \<^verbatim>\<open>for _ in range(10)\<close>: the first argument lists the passes still to run, \<open>llm\<close> gives the
  evaluated response of each pass, and the result comes with the number of LLM calls made.
  \<open>None\<close> is the \<^verbatim>\<open>else\<close> branch of the loop.
\<close>

fun info_attempts :: "nat list \<Rightarrow> (nat \<Rightarrow> pyval option) \<Rightarrow> nat \<Rightarrow> (int \<times> string) option \<times> nat" where
  "info_attempts [] llm calls = (None, calls)"
| "info_attempts (i # rest) llm calls =
     (case check_info (llm i) of
        Some r \<Rightarrow> (Some r, Suc calls)
      | None \<Rightarrow> info_attempts rest llm (Suc calls))"

definition generate_community_information ::
    "(nat \<Rightarrow> pyval option) \<Rightarrow> string \<times> string set \<times> string set
     \<Rightarrow> (int \<times> string \<times> string set \<times> string set) \<times> nat" where
  "generate_community_information llm info =
     (case info_attempts [0..<10] llm 0 of
        (None, calls) \<Rightarrow> ((0, [], {}, {}), calls)
      | (Some (confidence, information), calls) \<Rightarrow>
          ((confidence, strip information, fst (snd info), snd (snd info)), calls))"

text \<open>The last loop: it breaks below the cutoff and appends while there is room.\<close>

fun graph_results :: "(string set \<Rightarrow> string) \<Rightarrow> int \<Rightarrow> int
    \<Rightarrow> (int \<times> string \<times> string set \<times> string set) list \<Rightarrow> RetrievalAnswer list
    \<Rightarrow> RetrievalAnswer list" where
  "graph_results rps cutoff max_matches [] answers = answers"
| "graph_results rps cutoff max_matches (i # rest) answers =
     (if fst i < cutoff then answers
      else graph_results rps cutoff max_matches rest
             (if int (length answers) < max_matches
              then answers @ [text_answer (rps (fst (snd (snd i)))) (rps (snd (snd (snd i))))
                                (fst (snd i))]
              else answers))"

text \<open>\<^verbatim>\<open>confidence_cutoff = 40 if confidence_cutoff is None else max(0, min(100, confidence_cutoff))\<close>\<close>

definition set_graph_cutoff :: "int option \<Rightarrow> int" where
  "set_graph_cutoff c = (case c of None \<Rightarrow> 40 | Some v \<Rightarrow> max 0 (min 100 v))"

text \<open>
  The stitched buckets and the tuple that \<^verbatim>\<open>generate_community_information\<close> returns for
  each. \<open>communities\<close> is the shuffled list of fetched communities and \<open>llm b\<close> gives the
  responses to the requests for bucket \<open>b\<close>.
\<close>

definition community_informations ::
    "community_node list \<Rightarrow> (nat \<Rightarrow> nat \<Rightarrow> pyval option)
     \<Rightarrow> (int \<times> string \<times> string set \<times> string set) list" where
  "community_informations communities llm =
     map (\<lambda>(b, info). fst (generate_community_information (llm b) info))
       (enumerate 0 (stitch (rev communities) [] {} {} 0 []))"

text \<open>
  \<^verbatim>\<open>_graph_rag_retrieve\<close>; \<open>rps\<close> stands for \<^verbatim>\<open>list(source).__repr__()\<close> on a set.
\<close>

definition graph_rag_retrieve ::
    "(string set \<Rightarrow> string) \<Rightarrow> community_node list \<Rightarrow> (nat \<Rightarrow> nat \<Rightarrow> pyval option)
     \<Rightarrow> int option \<Rightarrow> int option \<Rightarrow> RetrievalAnswer list" where
  "graph_rag_retrieve rps communities llm max_matches confidence_cutoff =
     (let mm = set_max_matches max_matches;
          cutoff = set_graph_cutoff confidence_cutoff;
          informations = community_informations communities llm;
          answers = graph_results rps cutoff mm (sorted_desc fst informations) []
      in if length answers = 0 then [no_documents] else answers)"

section \<open>Proofs: the delta of the Constant Potts Model\<close>

lemma sum_list_map_update:
  fixes f :: "'a \<Rightarrow> real"
  shows "i < length xs \<Longrightarrow> (\<Sum>x\<leftarrow>xs[i := y]. f x) = (\<Sum>x\<leftarrow>xs. f x) - f (xs ! i) + f y"
proof (induction xs arbitrary: i)
  case Nil then show ?case by simp
next
  case (Cons a xs)
  then show ?case by (cases i) auto
qed

lemma sum_list_map_take_drop:
  fixes f :: "'a \<Rightarrow> real"
  shows "i < length xs \<Longrightarrow>
    (\<Sum>x\<leftarrow>take i xs @ drop (Suc i) xs. f x) = (\<Sum>x\<leftarrow>xs. f x) - f (xs ! i)"
proof (induction xs arbitrary: i)
  case Nil then show ?case by simp
next
  case (Cons a xs)
  then show ?case by (cases i) auto
qed

lemma remove1_emptied:
  "[] \<notin> set part \<Longrightarrow> ci < length part \<Longrightarrow>
   remove1 [] (part[ci := []]) = take ci part @ drop (Suc ci) part"
proof (induction part arbitrary: ci)
  case Nil then show ?case by simp
next
  case (Cons a part)
  then show ?case by (cases ci) auto
qed

lemma nth_take_drop_shift:
  "j < length xs \<Longrightarrow> j \<noteq> ci \<Longrightarrow> ci < length xs \<Longrightarrow>
   (take ci xs @ drop (Suc ci) xs) ! (if ci < j then j - 1 else j) = xs ! j"
  by (auto simp: nth_append min_def)

lemma choose_two_real: "real (n choose 2) = real n * (real n - 1) / 2"
proof (induction n)
  case 0 then show ?case by simp
next
  case (Suc n)
  have "(Suc n choose 2) = (n choose 1) + (n choose 2)"
    by (simp add: numeral_2_eq_2)
  then have "real (Suc n choose 2) = real n + real (n choose 2)" by simp
  with Suc show ?case by (simp add: field_simps)
qed

lemma in_as_set:
  "distinct C \<Longrightarrow> count_connecting_edges_in g C
     = (\<Sum>a\<in>set C. \<Sum>b\<in>{b \<in> set C. b < a}. edge_get g (a, b))"
proof -
  assume d: "distinct C"
  have inner: "\<And>a. (\<Sum>node2\<leftarrow>filter (\<lambda>node2. node2 < a) C. edge_get g (a, node2))
      = (\<Sum>b\<in>{b \<in> set C. b < a}. edge_get g (a, b))"
    using d by (simp add: sum_list_distinct_conv_sum_set)
  show ?thesis
    unfolding count_connecting_edges_in_def using d
    by (simp add: inner sum_list_distinct_conv_sum_set)
qed

lemma cce_single_as_set:
  "distinct C \<Longrightarrow> count_connecting_edges g C [v] = (\<Sum>u\<in>set C. edge_get g (u, v))"
  by (simp add: count_connecting_edges_def sum_list_distinct_conv_sum_set)

lemma in_set_insert:
  fixes w :: "node \<times> node \<Rightarrow> real"
  assumes fin: "finite S" and v: "v \<notin> S" and sym: "\<forall>a b. w (a, b) = w (b, a)"
  shows "(\<Sum>a\<in>insert v S. \<Sum>b\<in>{b \<in> insert v S. b < a}. w (a, b))
       = (\<Sum>a\<in>S. \<Sum>b\<in>{b \<in> S. b < a}. w (a, b)) + (\<Sum>u\<in>S. w (u, v))"
proof -
  have fS: "\<And>a. finite {b \<in> S. b < a}" using fin by simp
  have v_row: "{b \<in> insert v S. b < v} = {b \<in> S. b < v}" by auto
  have a_row: "\<And>a. a \<in> S \<Longrightarrow> (\<Sum>b\<in>{b \<in> insert v S. b < a}. w (a, b))
      = (\<Sum>b\<in>{b \<in> S. b < a}. w (a, b)) + (if v < a then w (a, v) else 0)"
  proof -
    fix a assume a: "a \<in> S"
    show "(\<Sum>b\<in>{b \<in> insert v S. b < a}. w (a, b))
      = (\<Sum>b\<in>{b \<in> S. b < a}. w (a, b)) + (if v < a then w (a, v) else 0)"
    proof (cases "v < a")
      case True
      then have "{b \<in> insert v S. b < a} = insert v {b \<in> S. b < a}" by auto
      moreover have "v \<notin> {b \<in> S. b < a}" using v by simp
      ultimately show ?thesis using fS True by simp
    next
      case False
      then have "{b \<in> insert v S. b < a} = {b \<in> S. b < a}" by auto
      then show ?thesis using False by simp
    qed
  qed
  have E1: "(\<Sum>a\<in>insert v S. \<Sum>b\<in>{b \<in> insert v S. b < a}. w (a, b))
      = (\<Sum>b\<in>{b \<in> insert v S. b < v}. w (v, b))
        + (\<Sum>a\<in>S. \<Sum>b\<in>{b \<in> insert v S. b < a}. w (a, b))"
    by (rule sum.insert[OF fin v])
  have E2: "(\<Sum>a\<in>S. \<Sum>b\<in>{b \<in> insert v S. b < a}. w (a, b))
      = (\<Sum>a\<in>S. (\<Sum>b\<in>{b \<in> S. b < a}. w (a, b)) + (if v < a then w (a, v) else 0))"
    by (rule sum.cong[OF refl]) (rule a_row)
  have E3: "(\<Sum>a\<in>S. (\<Sum>b\<in>{b \<in> S. b < a}. w (a, b)) + (if v < a then w (a, v) else 0))
      = (\<Sum>a\<in>S. \<Sum>b\<in>{b \<in> S. b < a}. w (a, b)) + (\<Sum>a\<in>S. if v < a then w (a, v) else 0)"
    by (rule sum.distrib)
  have E4: "(\<Sum>b\<in>{b \<in> S. b < v}. w (v, b)) = (\<Sum>u\<in>S. if u < v then w (u, v) else 0)"
  proof -
    have "(\<Sum>b\<in>{b \<in> S. b < v}. w (v, b)) = (\<Sum>b\<in>S. if b < v then w (v, b) else 0)"
      by (rule sum.inter_filter[OF fin])
    also have "\<dots> = (\<Sum>u\<in>S. if u < v then w (u, v) else 0)"
      using sym by (intro sum.cong) auto
    finally show ?thesis .
  qed
  have E5: "(\<Sum>u\<in>S. if u < v then w (u, v) else 0) + (\<Sum>a\<in>S. if v < a then w (a, v) else 0)
      = (\<Sum>u\<in>S. w (u, v))"
  proof -
    have "(\<Sum>u\<in>S. if u < v then w (u, v) else 0) + (\<Sum>a\<in>S. if v < a then w (a, v) else 0)
        = (\<Sum>u\<in>S. (if u < v then w (u, v) else 0) + (if v < u then w (u, v) else 0))"
      by (simp add: sum.distrib)
    also have "\<dots> = (\<Sum>u\<in>S. w (u, v))"
      using v by (intro sum.cong) auto
    finally show ?thesis .
  qed
  show ?thesis
    unfolding E1 v_row E2 E3 E4 using E5 by linarith
qed


lemma constant_potts_model_terms:
  "constant_potts_model g part gamma = (\<Sum>c\<leftarrow>part. community_term g gamma c)"
  by (simp add: constant_potts_model_def community_term_def)

lemma community_term_Nil: "community_term g gamma [] = 0"
  by (simp add: community_term_def count_connecting_edges_in_def get_len_def flatten_def)

lemma get_len_append: "get_len (c @ [v]) = get_len c + length v"
  by (simp add: get_len_def flatten_def)

lemma get_len_remove1: "v \<in> set c \<Longrightarrow> get_len c = get_len (remove1 v c) + length v"
  by (induction c) (auto simp: get_len_def flatten_def)

lemma comb_delta_choose:
  "gamma * real ((c + n) choose 2) = gamma * real (c choose 2) - gamma * comb_delta (real c) (real n)"
  by (simp add: choose_two_real comb_delta_def field_simps)

lemma in_append:
  assumes "symmetric g" "distinct c" "v \<notin> set c"
  shows "count_connecting_edges_in g (c @ [v])
       = count_connecting_edges_in g c + count_connecting_edges g c [v]"
proof -
  have d: "distinct (c @ [v])" using assms by simp
  have s: "set (c @ [v]) = insert v (set c)" by simp
  have sym: "\<forall>a b. edge_get g (a, b) = edge_get g (b, a)" using assms(1) by (simp add: symmetric_def)
  show ?thesis
    unfolding in_as_set[OF d] in_as_set[OF assms(2)] cce_single_as_set[OF assms(2)] s
    by (rule in_set_insert[OF _ assms(3) sym]) simp
qed

lemma in_remove1:
  assumes "symmetric g" "distinct c" "v \<in> set c"
  shows "count_connecting_edges_in g c
       = count_connecting_edges_in g (remove1 v c) + count_connecting_edges g (remove1 v c) [v]"
proof -
  have d: "distinct (remove1 v c)" using assms(2) by simp
  have nv: "v \<notin> set (remove1 v c)" using assms(2) by simp
  have s: "set c = insert v (set (remove1 v c))" using assms(2,3) by auto
  have sym: "\<forall>a b. edge_get g (a, b) = edge_get g (b, a)" using assms(1) by (simp add: symmetric_def)
  have "count_connecting_edges_in g c
      = (\<Sum>a\<in>insert v (set (remove1 v c)). \<Sum>b\<in>{b \<in> insert v (set (remove1 v c)). b < a}.
           edge_get g (a, b))"
    using in_as_set[OF assms(2), of g] s by simp
  also have "\<dots> = (\<Sum>a\<in>set (remove1 v c). \<Sum>b\<in>{b \<in> set (remove1 v c). b < a}. edge_get g (a, b))
      + (\<Sum>u\<in>set (remove1 v c). edge_get g (u, v))"
    by (rule in_set_insert[OF _ nv sym]) simp
  finally show ?thesis
    by (simp add: in_as_set[OF d] cce_single_as_set[OF d])
qed

lemma community_term_append:
  assumes "symmetric g" "distinct c" "v \<notin> set c"
  shows "community_term g gamma (c @ [v])
       = community_term g gamma c + count_connecting_edges g c [v]
         + gamma * comb_delta (real (get_len c)) (real (length v))"
  by (simp add: community_term_def in_append[OF assms] get_len_append comb_delta_choose)

lemma community_term_remove1:
  assumes "symmetric g" "distinct c" "v \<in> set c"
  shows "community_term g gamma c
       = community_term g gamma (remove1 v c) + count_connecting_edges g (remove1 v c) [v]
         + gamma * comb_delta (real (get_len (remove1 v c))) (real (length v))"
  using in_remove1[OF assms] get_len_remove1[OF assms(3)]
  by (simp add: community_term_def comb_delta_choose)

lemma delta_as_terms:
  assumes "symmetric g" "distinct ci" "v \<in> set ci" "distinct ct" "v \<notin> set ct"
  shows "delta_potts_model g part gamma v ci ct
       = community_term g gamma (ct @ [v]) - community_term g gamma ct
         + community_term g gamma (remove1 v ci) - community_term g gamma ci"
proof -
  have r: "removeAll v ci = remove1 v ci"
    using assms(2) by (simp add: distinct_remove1_removeAll)
  show ?thesis
    using community_term_append[OF assms(1,4,5), of gamma]
      community_term_remove1[OF assms(1,2,3), of gamma] assms(5)
    by (simp add: delta_potts_model_def Let_def r algebra_simps)
qed

lemma potts_move_Some:
  assumes "[] \<notin> set part" "ci < length part" "j < length part" "j \<noteq> ci"
  shows "constant_potts_model g (move_node part v ci (Some j)) gamma
       = constant_potts_model g part gamma
         - community_term g gamma (part ! ci) + community_term g gamma (remove1 v (part ! ci))
         - community_term g gamma (part ! j) + community_term g gamma (part ! j @ [v])"
proof (cases "remove1 v (part ! ci) = []")
  case True
  let ?p2 = "take ci part @ drop (Suc ci) part"
  let ?j = "if ci < j then j - 1 else j"
  have p1: "part[ci := remove1 v (part ! ci)] = part[ci := []]" using True by simp
  have p2: "remove1 [] (part[ci := []]) = ?p2" by (rule remove1_emptied[OF assms(1,2)])
  have nth: "?p2 ! ?j = part ! j" by (rule nth_take_drop_shift[OF assms(3,4,2)])
  have len: "?j < length ?p2" using assms(2,3,4) by auto
  have mv: "move_node part v ci (Some j) = ?p2[?j := part ! j @ [v]]"
    using True assms(2) by (simp add: move_node_def Let_def p1 p2 nth)
  have "(\<Sum>c\<leftarrow>?p2[?j := part ! j @ [v]]. community_term g gamma c)
      = (\<Sum>c\<leftarrow>?p2. community_term g gamma c) - community_term g gamma (?p2 ! ?j)
        + community_term g gamma (part ! j @ [v])"
    by (rule sum_list_map_update[OF len])
  also have "(\<Sum>c\<leftarrow>?p2. community_term g gamma c)
      = (\<Sum>c\<leftarrow>part. community_term g gamma c) - community_term g gamma (part ! ci)"
    by (rule sum_list_map_take_drop[OF assms(2)])
  finally show ?thesis
    by (simp add: constant_potts_model_terms mv nth True community_term_Nil)
next
  case False
  let ?p1 = "part[ci := remove1 v (part ! ci)]"
  have mv: "move_node part v ci (Some j) = ?p1[j := part ! j @ [v]]"
    using False assms(2,4) by (simp add: move_node_def Let_def)
  have "(\<Sum>c\<leftarrow>?p1[j := part ! j @ [v]]. community_term g gamma c)
      = (\<Sum>c\<leftarrow>?p1. community_term g gamma c) - community_term g gamma (?p1 ! j)
        + community_term g gamma (part ! j @ [v])"
    by (rule sum_list_map_update) (use assms(3) in simp)
  also have "(\<Sum>c\<leftarrow>?p1. community_term g gamma c)
      = (\<Sum>c\<leftarrow>part. community_term g gamma c) - community_term g gamma (part ! ci)
        + community_term g gamma (remove1 v (part ! ci))"
    by (rule sum_list_map_update[OF assms(2)])
  finally show ?thesis
    using assms(4) by (simp add: constant_potts_model_terms mv)
qed

lemma potts_move_None:
  assumes "[] \<notin> set part" "ci < length part"
  shows "constant_potts_model g (move_node part v ci None) gamma
       = constant_potts_model g part gamma
         - community_term g gamma (part ! ci) + community_term g gamma (remove1 v (part ! ci))
         + community_term g gamma [v]"
proof (cases "remove1 v (part ! ci) = []")
  case True
  have p1: "part[ci := remove1 v (part ! ci)] = part[ci := []]" using True by simp
  have p2: "remove1 [] (part[ci := []]) = take ci part @ drop (Suc ci) part"
    by (rule remove1_emptied[OF assms(1,2)])
  have mv: "move_node part v ci None = (take ci part @ drop (Suc ci) part) @ [[v]]"
    using True assms(2) by (simp add: move_node_def Let_def p1 p2)
  show ?thesis
    using sum_list_map_take_drop[OF assms(2), of "community_term g gamma"]
    by (simp add: constant_potts_model_terms mv True community_term_Nil)
next
  case False
  have mv: "move_node part v ci None = part[ci := remove1 v (part ! ci)] @ [[v]]"
    using False assms(2) by (simp add: move_node_def Let_def)
  show ?thesis
    using sum_list_map_update[OF assms(2), of "community_term g gamma" "remove1 v (part ! ci)"]
    by (simp add: constant_potts_model_terms mv)
qed


lemma community_index_Some:
  "community_index part v = Some ci \<Longrightarrow> ci < length part \<and> v \<in> set (part ! ci)"
proof (induction part arbitrary: ci)
  case Nil then show ?case by simp
next
  case (Cons c cs)
  then show ?case by (cases "v \<in> set c") auto
qed

text \<open>
  C2. On a graph whose edge dictionary is symmetric and a partition into non-empty sets,
  for the vertex \<open>v\<close> with its community at position \<open>ci\<close>: \<^verbatim>\<open>delta_potts_model\<close> towards a
  community of the partition that does not hold \<open>v\<close>, or towards the fresh empty set, equals
  \<^verbatim>\<open>constant_potts_model\<close> of the partition after the move minus \<^verbatim>\<open>constant_potts_model\<close> of the
  partition before it, and \<^verbatim>\<open>delta_potts_model\<close> is 0 towards every set that holds \<open>v\<close>.
\<close>

theorem delta_potts_model_refines:
  assumes "symmetric g" and "[] \<notin> set part" and "\<forall>c\<in>set part. distinct c"
    and "community_index part v = Some ci"
  shows "(\<forall>j<length part. v \<notin> set (part ! j) \<longrightarrow>
            delta_potts_model g part gamma v (get_community_of_node part v) (part ! j)
            = constant_potts_model g (move_node part v ci (Some j)) gamma
              - constant_potts_model g part gamma)
       \<and> delta_potts_model g part gamma v (get_community_of_node part v) []
            = constant_potts_model g (move_node part v ci None) gamma
              - constant_potts_model g part gamma
       \<and> (\<forall>ct. v \<in> set ct \<longrightarrow>
            delta_potts_model g part gamma v (get_community_of_node part v) ct = 0)"
proof -
  from community_index_Some[OF assms(4)] have ci: "ci < length part" and v: "v \<in> set (part ! ci)"
    by simp_all
  have gc: "get_community_of_node part v = part ! ci"
    by (simp add: get_community_of_node_def assms(4))
  have dci: "distinct (part ! ci)" using assms(3) ci by simp
  have A: "delta_potts_model g part gamma v (part ! ci) (part ! j)
            = constant_potts_model g (move_node part v ci (Some j)) gamma
              - constant_potts_model g part gamma"
    if j: "j < length part" and nj: "v \<notin> set (part ! j)" for j
  proof -
    have ne: "j \<noteq> ci" using v nj by auto
    have dj: "distinct (part ! j)" using assms(3) j by simp
    show ?thesis
      unfolding delta_as_terms[OF assms(1) dci v dj nj] potts_move_Some[OF assms(2) ci j ne]
      by simp
  qed
  have B: "delta_potts_model g part gamma v (part ! ci) []
            = constant_potts_model g (move_node part v ci None) gamma
              - constant_potts_model g part gamma"
    using delta_as_terms[OF assms(1) dci v, of "[]" part gamma]
    by (simp add: potts_move_None[OF assms(2) ci] community_term_Nil)
  have C: "delta_potts_model g part gamma v (part ! ci) ct = 0" if "v \<in> set ct" for ct
    using that by (simp add: delta_potts_model_def)
  show ?thesis unfolding gc using A B C by blast
qed

lemma path_graph_symmetric: "symmetric path_graph"
  by (auto simp: symmetric_def path_graph_def edge_get_def)

text \<open>C2, witness: on the path \<open>a - b - c\<close>, moving \<open>b\<close> to the community of \<open>c\<close> gains 2 - gamma.\<close>

theorem delta_potts_model_refines_witness:
  "delta_potts_model path_graph path_singletons (1 / 10) [''b'']
       (get_community_of_node path_singletons [''b'']) (path_singletons ! 2)
     = constant_potts_model path_graph (move_node path_singletons [''b''] 1 (Some 2)) (1 / 10)
       - constant_potts_model path_graph path_singletons (1 / 10)
 \<and> delta_potts_model path_graph path_singletons (1 / 10) [''b'']
       (get_community_of_node path_singletons [''b'']) (path_singletons ! 2) = 19 / 10
 \<and> move_node path_singletons [''b''] 1 (Some 2) = [[[''a'']], [[''c''], [''b'']]]"
proof -
  have 1: "[] \<notin> set path_singletons" by (simp add: path_singletons_def)
  have 2: "\<forall>c\<in>set path_singletons. distinct c" by (simp add: path_singletons_def)
  have 3: "community_index path_singletons [''b''] = Some 1" by (simp add: path_singletons_def)
  have 4: "2 < length path_singletons \<and> [''b''] \<notin> set (path_singletons ! 2)"
    by (simp add: path_singletons_def)
  have 5: "delta_potts_model path_graph path_singletons (1 / 10) [''b'']
       (get_community_of_node path_singletons [''b'']) (path_singletons ! 2) = 19 / 10"
    by (simp add: delta_potts_model_def get_community_of_node_def 3 path_singletons_def
        count_connecting_edges_def edge_get_def path_graph_def comb_delta_def get_len_def flatten_def)
  have 6: "move_node path_singletons [''b''] 1 (Some 2) = [[[''a'']], [[''c''], [''b'']]]"
    by (simp add: move_node_def path_singletons_def)
  from delta_potts_model_refines [OF path_graph_symmetric 1 2 3, of "1 / 10"] 4 5 6
  show ?thesis by blast
qed

section \<open>Proofs: the local move never lowers the objective\<close>

lemma mset_concat_update:
  "i < length xs \<Longrightarrow> mset (concat (xs[i := y])) + mset (xs ! i) = mset (concat xs) + mset y"
proof (induction xs arbitrary: i)
  case Nil then show ?case by simp
next
  case (Cons a xs)
  show ?case
  proof (cases i)
    case 0 then show ?thesis by simp
  next
    case (Suc k)
    with Cons.prems have "k < length xs" by simp
    from Cons.IH[OF this] show ?thesis by (simp add: Suc ac_simps)
  qed
qed

lemma mset_concat_take_drop:
  "i < length xs \<Longrightarrow> mset (concat (take i xs @ drop (Suc i) xs)) + mset (xs ! i) = mset (concat xs)"
proof (induction xs arbitrary: i)
  case Nil then show ?case by simp
next
  case (Cons a xs)
  show ?case
  proof (cases i)
    case 0 then show ?thesis by simp
  next
    case (Suc k)
    with Cons.prems have "k < length xs" by simp
    from Cons.IH[OF this] show ?thesis by (simp add: Suc ac_simps)
  qed
qed

lemma mset_remove1_add: "v \<in> set c \<Longrightarrow> mset c = mset (remove1 v c) + {#v#}"
  by (induction c) auto

lemma move_node_mset:
  assumes ne: "[] \<notin> set part" and ci: "ci < length part" and v: "v \<in> set (part ! ci)"
    and tgt: "case target of None \<Rightarrow> True | Some j \<Rightarrow> j < length part \<and> j \<noteq> ci"
  shows "mset (concat (move_node part v ci target)) = mset (concat part)"
proof -
  let ?rem = "remove1 v (part ! ci)"
  let ?p1 = "part[ci := ?rem]"
  have p1: "mset (concat ?p1) + {#v#} = mset (concat part)"
  proof -
    have A: "mset (concat ?p1) + mset (part ! ci) = mset (concat part) + mset ?rem"
      by (rule mset_concat_update[OF ci])
    have B: "mset (part ! ci) = mset ?rem + {#v#}" by (rule mset_remove1_add[OF v])
    have "mset (concat ?p1) + (mset ?rem + {#v#}) = mset (concat part) + mset ?rem"
      using A by (simp only: B)
    then have "(mset (concat ?p1) + {#v#}) + mset ?rem = mset (concat part) + mset ?rem"
      by (simp only: add.assoc add.commute[of "mset ?rem"])
    then show ?thesis by (simp only: add_right_cancel)
  qed
  show ?thesis
  proof (cases "?rem = []")
    case True
    let ?p2 = "take ci part @ drop (Suc ci) part"
    have e1: "?p1 = part[ci := []]" using True by simp
    have e2: "remove1 [] (part[ci := []]) = ?p2" by (rule remove1_emptied[OF ne ci])
    have p2: "mset (concat ?p2) + {#v#} = mset (concat part)"
    proof -
      have "mset (part ! ci) = mset ?rem + {#v#}" by (rule mset_remove1_add[OF v])
      then have "mset (part ! ci) = {#v#}" by (simp only: True mset.simps add_0)
      then show ?thesis using mset_concat_take_drop[OF ci] by simp
    qed
    show ?thesis
    proof (cases target)
      case None
      then show ?thesis using True ci p2 by (simp add: move_node_def Let_def e1 e2)
    next
      case (Some j)
      let ?j = "if ci < j then j - 1 else j"
      from tgt Some have j: "j < length part" "j \<noteq> ci" by simp_all
      have len: "?j < length ?p2" using ci j by auto
      have mv: "move_node part v ci (Some j) = ?p2[?j := ?p2 ! ?j @ [v]]"
        using True ci by (simp add: move_node_def Let_def e1 e2)
      have "mset (concat (?p2[?j := ?p2 ! ?j @ [v]])) + mset (?p2 ! ?j)
          = mset (concat ?p2) + mset (?p2 ! ?j @ [v])"
        by (rule mset_concat_update[OF len])
      then have "mset (concat (?p2[?j := ?p2 ! ?j @ [v]])) = mset (concat ?p2) + {#v#}"
        by simp
      then show ?thesis using p2 Some mv by simp
    qed
  next
    case False
    show ?thesis
    proof (cases target)
      case None
      then show ?thesis using False ci p1 by (simp add: move_node_def Let_def)
    next
      case (Some j)
      from tgt Some have j: "j < length part" "j \<noteq> ci" by simp_all
      have len: "j < length ?p1" using j by simp
      have mv: "move_node part v ci (Some j) = ?p1[j := ?p1 ! j @ [v]]"
        using False ci j by (simp add: move_node_def Let_def)
      have "mset (concat (?p1[j := ?p1 ! j @ [v]])) + mset (?p1 ! j)
          = mset (concat ?p1) + mset (?p1 ! j @ [v])"
        by (rule mset_concat_update[OF len])
      then have "mset (concat (?p1[j := ?p1 ! j @ [v]])) = mset (concat ?p1) + {#v#}"
        by simp
      then show ?thesis using p1 Some mv by simp
    qed
  qed
qed

lemma move_node_communities:
  assumes ne: "[] \<notin> set part" and ci: "ci < length part"
    and tgt: "case target of None \<Rightarrow> True | Some j \<Rightarrow> j < length part \<and> j \<noteq> ci"
  shows "set (move_node part v ci target)
       \<subseteq> (set part \<union> {remove1 v (part ! ci)} \<union>
           (case target of None \<Rightarrow> {[v]} | Some j \<Rightarrow> {part ! j @ [v]})) - {[]}"
proof -
  let ?rem = "remove1 v (part ! ci)"
  let ?p1 = "part[ci := ?rem]"
  show ?thesis
  proof (cases "?rem = []")
    case True
    let ?p2 = "take ci part @ drop (Suc ci) part"
    have e1: "?p1 = part[ci := []]" using True by simp
    have e2: "remove1 [] (part[ci := []]) = ?p2" by (rule remove1_emptied[OF ne ci])
    have s2: "set ?p2 \<subseteq> set part" by (auto dest: in_set_takeD in_set_dropD)
    show ?thesis
    proof (cases target)
      case None
      then show ?thesis using True ci s2 ne by (auto simp: move_node_def Let_def e1 e2)
    next
      case (Some j)
      let ?j = "if ci < j then j - 1 else j"
      from tgt Some have j: "j < length part" "j \<noteq> ci" by simp_all
      have nth: "?p2 ! ?j = part ! j" by (rule nth_take_drop_shift[OF j ci])
      have mv: "move_node part v ci (Some j) = ?p2[?j := part ! j @ [v]]"
        using True ci by (simp add: move_node_def Let_def e1 e2 nth)
      have "set (?p2[?j := part ! j @ [v]]) \<subseteq> insert (part ! j @ [v]) (set ?p2)"
        by (rule set_update_subset_insert)
      then have "set (move_node part v ci (Some j)) \<subseteq> insert (part ! j @ [v]) (set part)"
        using s2 unfolding mv by blast
      then show ?thesis using ne Some by auto
    qed
  next
    case False
    have s1: "set ?p1 \<subseteq> insert ?rem (set part)" by (rule set_update_subset_insert)
    show ?thesis
    proof (cases target)
      case None
      then show ?thesis using False ci s1 ne by (auto simp: move_node_def Let_def)
    next
      case (Some j)
      from tgt Some have j: "j < length part" "j \<noteq> ci" by simp_all
      have mv: "move_node part v ci (Some j) = ?p1[j := part ! j @ [v]]"
        using False ci j by (simp add: move_node_def Let_def)
      have "set (?p1[j := part ! j @ [v]]) \<subseteq> insert (part ! j @ [v]) (set ?p1)"
        by (rule set_update_subset_insert)
      then have "set (move_node part v ci (Some j))
          \<subseteq> insert (part ! j @ [v]) (insert ?rem (set part))"
        using s1 unfolding mv by blast
      then show ?thesis using ne False Some by auto
    qed
  qed
qed

lemma move_node_partition_of:
  assumes "partition_of vs part" and "community_index part v = Some ci"
    and tgt: "case target of None \<Rightarrow> True | Some j \<Rightarrow> j < length part \<and> v \<notin> set (part ! j)"
  shows "partition_of vs (move_node part v ci target)"
proof -
  from community_index_Some[OF assms(2)] have ci: "ci < length part" and v: "v \<in> set (part ! ci)"
    by simp_all
  have ne: "[] \<notin> set part" using assms(1) by (simp add: partition_of_def)
  have t: "case target of None \<Rightarrow> True | Some j \<Rightarrow> j < length part \<and> j \<noteq> ci"
    using tgt v by (auto split: option.splits)
  have m: "mset (concat (move_node part v ci target)) = mset (concat part)"
    by (rule move_node_mset[OF ne ci v t])
  have d: "distinct (concat (move_node part v ci target))"
    using assms(1) mset_eq_imp_distinct_iff[OF m] by (simp add: partition_of_def)
  have s: "set (concat (move_node part v ci target)) = set vs"
    using assms(1) mset_eq_setD[OF m] by (simp add: partition_of_def)
  have "[] \<notin> set (move_node part v ci target)"
    using move_node_communities[OF ne ci t, of v] by auto
  then show ?thesis using d s by (simp add: partition_of_def)
qed


lemma partition_of_distinct: "partition_of vs part \<Longrightarrow> c \<in> set part \<Longrightarrow> distinct c"
  by (auto simp: partition_of_def distinct_concat_iff)

lemma potts_delta_Some:
  assumes "symmetric g" "partition_of vs part" "community_index part v = Some ci"
    "j < length part" "v \<notin> set (part ! j)"
  shows "constant_potts_model g (move_node part v ci (Some j)) gamma
       = constant_potts_model g part gamma
         + delta_potts_model g part gamma v (get_community_of_node part v) (part ! j)"
proof -
  from community_index_Some[OF assms(3)] have ci: "ci < length part" and v: "v \<in> set (part ! ci)"
    by simp_all
  have ne: "[] \<notin> set part" using assms(2) by (simp add: partition_of_def)
  have gc: "get_community_of_node part v = part ! ci"
    by (simp add: get_community_of_node_def assms(3))
  have dci: "distinct (part ! ci)" using partition_of_distinct[OF assms(2)] ci by simp
  have dj: "distinct (part ! j)" using partition_of_distinct[OF assms(2)] assms(4) by simp
  have nj: "j \<noteq> ci" using v assms(5) by auto
  show ?thesis
    unfolding gc delta_as_terms[OF assms(1) dci v dj assms(5)] potts_move_Some[OF ne ci assms(4) nj]
    by simp
qed

lemma potts_delta_None:
  assumes "symmetric g" "partition_of vs part" "community_index part v = Some ci"
  shows "constant_potts_model g (move_node part v ci None) gamma
       = constant_potts_model g part gamma
         + delta_potts_model g part gamma v (get_community_of_node part v) []"
proof -
  from community_index_Some[OF assms(3)] have ci: "ci < length part" and v: "v \<in> set (part ! ci)"
    by simp_all
  have ne: "[] \<notin> set part" using assms(2) by (simp add: partition_of_def)
  have gc: "get_community_of_node part v = part ! ci"
    by (simp add: get_community_of_node_def assms(3))
  have dci: "distinct (part ! ci)" using partition_of_distinct[OF assms(2)] ci by simp
  show ?thesis
    unfolding gc using delta_as_terms[OF assms(1) dci v, of "[]" part gamma]
    by (simp add: potts_move_None[OF ne ci] community_term_Nil)
qed

lemma scan_communities_best:
  assumes "0 \<le> snd best"
    and "0 < snd best \<longrightarrow> (case fst best of
            None \<Rightarrow> snd best = delta_potts_model g part gamma n nc []
          | Some k \<Rightarrow> k < length part \<and> snd best = delta_potts_model g part gamma n nc (part ! k))"
    and "rest = drop j part"
  shows "0 \<le> snd (scan_communities g part gamma n nc rest j best)
       \<and> (0 < snd (scan_communities g part gamma n nc rest j best) \<longrightarrow>
           (case fst (scan_communities g part gamma n nc rest j best) of
              None \<Rightarrow> snd (scan_communities g part gamma n nc rest j best)
                        = delta_potts_model g part gamma n nc []
            | Some k \<Rightarrow> k < length part
                \<and> snd (scan_communities g part gamma n nc rest j best)
                    = delta_potts_model g part gamma n nc (part ! k)))"
  using assms
proof (induction rest arbitrary: j best)
  case Nil
  then show ?case by (auto split: option.splits)
next
  case (Cons community rest)
  have j: "j < length part" using Cons.prems(3) by (metis drop_eq_Nil list.distinct(1) not_le)
  have c: "community = part ! j" using Cons.prems(3) j by (metis Cons_nth_drop_Suc list.inject)
  have r: "rest = drop (Suc j) part" using Cons.prems(3) j by (metis Cons_nth_drop_Suc list.inject)
  let ?pv = "delta_potts_model g part gamma n nc community"
  show ?case
  proof (cases "?pv > snd best")
    case True
    have 1: "0 \<le> snd (Some j, ?pv)" using True Cons.prems(1) by simp
    have 2: "0 < snd (Some j, ?pv) \<longrightarrow> (case fst (Some j, ?pv) of
            None \<Rightarrow> snd (Some j, ?pv) = delta_potts_model g part gamma n nc []
          | Some k \<Rightarrow> k < length part \<and> snd (Some j, ?pv) = delta_potts_model g part gamma n nc (part ! k))"
      using j c by simp
    have E: "scan_communities g part gamma n nc (community # rest) j best
        = scan_communities g part gamma n nc rest (Suc j) (Some j, ?pv)"
      using True by (simp add: Let_def)
    show ?thesis unfolding E by (rule Cons.IH[OF 1 2 r])
  next
    case False
    have E: "scan_communities g part gamma n nc (community # rest) j best
        = scan_communities g part gamma n nc rest (Suc j) best"
      using False by (simp add: Let_def)
    show ?thesis unfolding E by (rule Cons.IH[OF Cons.prems(1,2) r])
  qed
qed

lemma visit_improves:
  assumes "symmetric g" "partition_of vs part" "visit g gamma n part next_queue = Inr (part', nq')"
  shows "partition_of vs part' \<and> constant_potts_model g part gamma \<le> constant_potts_model g part' gamma"
proof -
  let ?nc = "get_community_of_node part n"
  let ?pv = "delta_potts_model g part gamma n ?nc []"
  let ?start = "if ?pv > 0 then (None, ?pv) else (None :: nat option, 0)"
  let ?best = "scan_communities g part gamma n ?nc part 0 ?start"
  have s1: "0 \<le> snd ?start" by simp
  have s2: "0 < snd ?start \<longrightarrow> (case fst ?start of
            None \<Rightarrow> snd ?start = delta_potts_model g part gamma n ?nc []
          | Some k \<Rightarrow> k < length part \<and> snd ?start = delta_potts_model g part gamma n ?nc (part ! k))"
    by simp
  have s3: "part = drop 0 part" by simp
  note B = scan_communities_best[OF s1 s2 s3]
  show ?thesis
  proof (cases "snd ?best > 0")
    case False
    then have "part' = part" using assms(3) by (simp add: visit_def Let_def)
    then show ?thesis using assms(2) by simp
  next
    case True
    then obtain ci where ci: "community_index part n = Some ci"
      using assms(3) by (cases "community_index part n") (auto simp: visit_def Let_def)
    have p': "part' = move_node part n ci (fst ?best)"
      using assms(3) True ci by (simp add: visit_def Let_def)
    show ?thesis
    proof (cases "fst ?best")
      case None
      have val: "snd ?best = ?pv" using B True None by simp
      have "partition_of vs (move_node part n ci None)"
        by (rule move_node_partition_of[OF assms(2) ci]) simp
      moreover have "constant_potts_model g (move_node part n ci None) gamma
          = constant_potts_model g part gamma + ?pv"
        by (rule potts_delta_None[OF assms(1,2) ci])
      ultimately show ?thesis using p' None val True by simp
    next
      case (Some k)
      have k: "k < length part" and val: "snd ?best = delta_potts_model g part gamma n ?nc (part ! k)"
        using B True Some by simp_all
      have nk: "n \<notin> set (part ! k)"
        using val True by (auto simp: delta_potts_model_def)
      have "partition_of vs (move_node part n ci (Some k))"
        by (rule move_node_partition_of[OF assms(2) ci]) (simp add: k nk)
      moreover have "constant_potts_model g (move_node part n ci (Some k)) gamma
          = constant_potts_model g part gamma
            + delta_potts_model g part gamma n ?nc (part ! k)"
        by (rule potts_delta_Some[OF assms(1,2) ci k nk])
      ultimately show ?thesis using p' Some val True by simp
    qed
  qed
qed

lemma move_loop_improves:
  "move_loop fuel g gamma node_queue next_queue part r = Some (Inr (part', r')) \<Longrightarrow>
   symmetric g \<Longrightarrow> partition_of vs part \<Longrightarrow>
   partition_of vs part' \<and> constant_potts_model g part gamma \<le> constant_potts_model g part' gamma"
proof (induction fuel arbitrary: node_queue next_queue part r)
  case 0
  then show ?case by simp
next
  case (Suc fuel)
  show ?case
  proof (cases "node_queue \<noteq> []")
    case True
    show ?thesis
    proof (cases "visit g gamma (last node_queue) part next_queue")
      case (Inl e)
      then show ?thesis using Suc.prems(1) True by simp
    next
      case (Inr res)
      obtain p1 nq1 where res: "res = (p1, nq1)" by (cases res)
      have run: "move_loop fuel g gamma (butlast node_queue) nq1 p1 r = Some (Inr (part', r'))"
        using Suc.prems(1) True Inr res by simp
      from visit_improves[OF Suc.prems(2,3) Inr[unfolded res]]
      have 1: "partition_of vs p1"
        and 2: "constant_potts_model g part gamma \<le> constant_potts_model g p1 gamma" by simp_all
      from Suc.IH[OF run Suc.prems(2) 1] 2 show ?thesis by simp
    qed
  next
    case False
    show ?thesis
    proof (cases "next_queue \<noteq> []")
      case True
      obtain q r1 where sh: "shuffle next_queue r = (q, r1)" by (cases "shuffle next_queue r")
      have run: "move_loop fuel g gamma q [] part r1 = Some (Inr (part', r'))"
        using Suc.prems(1) False True sh by simp
      from Suc.IH[OF run Suc.prems(2,3)] show ?thesis .
    next
      case nq: False
      then have "part' = part" using Suc.prems(1) False by simp
      then show ?thesis using Suc.prems(3) by simp
    qed
  qed
qed

lemma move_nodes_improves:
  assumes "move_nodes fuel g part gamma r = Some (Inr (part', r'))"
    and "symmetric g" and "partition_of vs part"
  shows "partition_of vs part' \<and> constant_potts_model g part gamma \<le> constant_potts_model g part' gamma"
proof -
  obtain q r1 where sh: "shuffle (vertices g) r = (q, r1)" by (cases "shuffle (vertices g) r")
  have "move_loop fuel g gamma q [] part r1 = Some (Inr (part', r'))"
    using assms(1) sh by (simp add: move_nodes_def)
  from move_loop_improves[OF this assms(2,3)] show ?thesis .
qed


subsection \<open>Proofs: the objective of an aggregated graph, read on the leaves\<close>

lemma cce_append_left:
  "count_connecting_edges g (a @ b) d = count_connecting_edges g a d + count_connecting_edges g b d"
  by (simp add: count_connecting_edges_def)

lemma cce_append_right:
  "count_connecting_edges g a (b @ d) = count_connecting_edges g a b + count_connecting_edges g a d"
  by (simp add: count_connecting_edges_def sum_list_addf)

lemma cce_Nil_right: "count_connecting_edges g a [] = 0"
  by (simp add: count_connecting_edges_def)

lemma in_Nil: "count_connecting_edges_in g [] = 0"
  by (simp add: count_connecting_edges_in_def)

lemma in_block_append:
  "symmetric g \<Longrightarrow> distinct (a @ b) \<Longrightarrow>
   count_connecting_edges_in g (a @ b)
     = count_connecting_edges_in g a + count_connecting_edges_in g b + count_connecting_edges g a b"
proof (induction b rule: rev_induct)
  case Nil
  then show ?case by (simp add: in_Nil cce_Nil_right)
next
  case (snoc v b)
  have d: "distinct (a @ b)" and v: "v \<notin> set (a @ b)" and db: "distinct b" and vb: "v \<notin> set b"
    using snoc.prems(2) by auto
  have "count_connecting_edges_in g ((a @ b) @ [v])
      = count_connecting_edges_in g (a @ b) + count_connecting_edges g (a @ b) [v]"
    by (rule in_append[OF snoc.prems(1) d v])
  moreover have "count_connecting_edges_in g (b @ [v])
      = count_connecting_edges_in g b + count_connecting_edges g b [v]"
    by (rule in_append[OF snoc.prems(1) db vb])
  ultimately show ?case
    using snoc.IH[OF snoc.prems(1) d] by (simp add: cce_append_left cce_append_right)
qed

lemma in_cong_set:
  "distinct c \<Longrightarrow> distinct d \<Longrightarrow> set c = set d \<Longrightarrow>
   count_connecting_edges_in g c = count_connecting_edges_in g d"
  by (simp add: in_as_set)

lemma leafs_append:
  "map (\<lambda>l. [l]) (flatten (c @ d)) = map (\<lambda>l. [l]) (flatten c) @ map (\<lambda>l. [l]) (flatten d)"
  by (simp add: flatten_def)

lemma get_len_leafs: "get_len (map (\<lambda>l. [l]) xs) = length xs"
  by (induction xs) (simp_all add: get_len_def flatten_def)

lemma cce_leafs:
  "count_connecting_edges g0 (map (\<lambda>l. [l]) (flatten c)) (map (\<lambda>l. [l]) s)
     = (\<Sum>t\<leftarrow>c. \<Sum>b\<leftarrow>t. \<Sum>a\<leftarrow>s. edge_get g0 ([b], [a]))"
  by (induction c) (simp_all add: count_connecting_edges_def flatten_def comp_def)

lemma distinct_concat_subset:
  "distinct (concat vs) \<Longrightarrow> distinct c \<Longrightarrow> set c \<subseteq> set vs \<Longrightarrow> distinct (concat c)"
proof (induction c)
  case Nil then show ?case by simp
next
  case (Cons s c)
  have s: "s \<in> set vs" and sc: "s \<notin> set c" using Cons.prems by auto
  have ds: "distinct s" using Cons.prems(1) s by (auto simp: distinct_concat_iff)
  have disj: "set s \<inter> set t = {}" if "t \<in> set c" for t
  proof -
    have "t \<in> set vs" "t \<noteq> s" using that Cons.prems(3) sc by auto
    then show ?thesis using Cons.prems(1) s by (auto simp: distinct_concat_iff)
  qed
  have "distinct (concat c)" using Cons by simp
  then show ?case using ds disj by auto
qed

lemma aggregates_edge:
  "aggregates g0 g \<Longrightarrow> s1 \<in> set (vertices g) \<Longrightarrow> s2 \<in> set (vertices g) \<Longrightarrow> s1 \<noteq> s2 \<Longrightarrow>
   edge_get g (s1, s2) = (\<Sum>a\<leftarrow>s1. \<Sum>b\<leftarrow>s2. edge_get g0 ([a], [b]))"
  by (auto simp: aggregates_def list_all_iff)

lemma in_aggregated:
  assumes "aggregates g0 g" "symmetric g0"
  shows "distinct c \<Longrightarrow> set c \<subseteq> set (vertices g) \<Longrightarrow>
    count_connecting_edges_in g c
      = count_connecting_edges_in g0 (map (\<lambda>l. [l]) (flatten c))
        - (\<Sum>s\<leftarrow>c. count_connecting_edges_in g0 (map (\<lambda>l. [l]) s))"
proof (induction c rule: rev_induct)
  case Nil
  then show ?case by (simp add: in_Nil flatten_def)
next
  case (snoc s c)
  have symg: "symmetric g" using assms(1) by (simp add: aggregates_def)
  have dc: "distinct c" and sc: "s \<notin> set c" and sub: "set c \<subseteq> set (vertices g)"
    and sv: "s \<in> set (vertices g)"
    using snoc.prems by auto
  have dl: "distinct (concat (c @ [s]))"
    using distinct_concat_subset[OF _ snoc.prems] assms(1) by (simp add: aggregates_def)
  have dleaf: "distinct (map (\<lambda>l. [l]) (flatten c) @ map (\<lambda>l. [l]) s)"
    using dl by (auto simp: flatten_def distinct_map inj_on_def)
  have 1: "count_connecting_edges_in g (c @ [s])
      = count_connecting_edges_in g c + count_connecting_edges g c [s]"
    by (rule in_append[OF symg dc sc])
  have 2: "count_connecting_edges g c [s] = (\<Sum>t\<leftarrow>c. \<Sum>b\<leftarrow>t. \<Sum>a\<leftarrow>s. edge_get g0 ([b], [a]))"
  proof -
    have "count_connecting_edges g c [s] = (\<Sum>t\<leftarrow>c. edge_get g (t, s))"
      by (simp add: count_connecting_edges_def)
    also have "\<dots> = (\<Sum>t\<leftarrow>c. \<Sum>b\<leftarrow>t. \<Sum>a\<leftarrow>s. edge_get g0 ([b], [a]))"
    proof (rule arg_cong[where f = sum_list], rule map_cong[OF refl])
      fix t assume t: "t \<in> set c"
      then have "t \<in> set (vertices g)" "t \<noteq> s" using sub sc by auto
      then show "edge_get g (t, s) = (\<Sum>b\<leftarrow>t. \<Sum>a\<leftarrow>s. edge_get g0 ([b], [a]))"
        using aggregates_edge[OF assms(1) _ sv] by simp
    qed
    finally show ?thesis .
  qed
  have 3: "count_connecting_edges_in g0 (map (\<lambda>l. [l]) (flatten (c @ [s])))
      = count_connecting_edges_in g0 (map (\<lambda>l. [l]) (flatten c))
        + count_connecting_edges_in g0 (map (\<lambda>l. [l]) s)
        + count_connecting_edges g0 (map (\<lambda>l. [l]) (flatten c)) (map (\<lambda>l. [l]) s)"
    using in_block_append[OF assms(2) dleaf] by (simp add: flatten_def)
  show ?case
    using snoc.IH[OF dc sub] by (simp add: 1 2 3 cce_leafs)
qed

lemma community_term_aggregated:
  assumes "aggregates g0 g" "symmetric g0" "distinct c" "set c \<subseteq> set (vertices g)"
  shows "community_term g gamma c
      = community_term g0 gamma (map (\<lambda>l. [l]) (flatten c))
        - (\<Sum>s\<leftarrow>c. count_connecting_edges_in g0 (map (\<lambda>l. [l]) s))"
  using in_aggregated[OF assms]
  by (simp add: community_term_def get_len_leafs) (simp add: get_len_def)

lemma potts_aggregated:
  assumes "aggregates g0 g" "symmetric g0" "partition_of (vertices g) part"
  shows "constant_potts_model g part gamma
      = constant_potts_model g0 (leaf_partition part) gamma
        - (\<Sum>s\<leftarrow>concat part. count_connecting_edges_in g0 (map (\<lambda>l. [l]) s))"
proof -
  have each: "community_term g gamma c
      = community_term g0 gamma (map (\<lambda>l. [l]) (flatten c))
        - (\<Sum>s\<leftarrow>c. count_connecting_edges_in g0 (map (\<lambda>l. [l]) s))" if "c \<in> set part" for c
  proof -
    have "distinct c" using partition_of_distinct[OF assms(3) that] .
    moreover have "set c \<subseteq> set (vertices g)" using assms(3) that by (auto simp: partition_of_def)
    ultimately show ?thesis by (rule community_term_aggregated[OF assms(1,2)])
  qed
  have "constant_potts_model g part gamma
      = (\<Sum>c\<leftarrow>part. community_term g0 gamma (map (\<lambda>l. [l]) (flatten c))
           - (\<Sum>s\<leftarrow>c. count_connecting_edges_in g0 (map (\<lambda>l. [l]) s)))"
    unfolding constant_potts_model_terms
    by (rule arg_cong[where f = sum_list], rule map_cong[OF refl]) (rule each)
  also have "\<dots> = (\<Sum>c\<leftarrow>part. community_term g0 gamma (map (\<lambda>l. [l]) (flatten c)))
           - (\<Sum>c\<leftarrow>part. \<Sum>s\<leftarrow>c. count_connecting_edges_in g0 (map (\<lambda>l. [l]) s))"
    by (simp add: sum_list_subtractf)
  also have "(\<Sum>c\<leftarrow>part. \<Sum>s\<leftarrow>c. count_connecting_edges_in g0 (map (\<lambda>l. [l]) s))
      = (\<Sum>s\<leftarrow>concat part. count_connecting_edges_in g0 (map (\<lambda>l. [l]) s))"
    by (induction part) simp_all
  finally show ?thesis
    by (simp add: constant_potts_model_terms leaf_partition_def comp_def)
qed

lemma sum_list_partition_vertices:
  fixes f :: "node \<Rightarrow> real"
  assumes "partition_of vs part" "distinct vs"
  shows "(\<Sum>s\<leftarrow>concat part. f s) = (\<Sum>s\<leftarrow>vs. f s)"
proof -
  have "distinct (concat part)" "set (concat part) = set vs"
    using assms(1) by (simp_all add: partition_of_def)
  then have "mset (concat part) = mset vs"
    using assms(2) set_eq_iff_mset_eq_distinct[of "concat part" vs] by blast
  then have "mset (map f (concat part)) = mset (map f vs)" by (metis mset_map)
  then show ?thesis by (metis sum_mset_sum_list)
qed

lemma aggregates_distinct: "aggregates g0 g \<Longrightarrow> distinct (vertices g)"
  by (auto simp: aggregates_def distinct_concat_iff)

lemma move_nodes_leaves:
  assumes "aggregates g0 g" "symmetric g0" "partition_of (vertices g) part"
    and "move_nodes fuel g part gamma r = Some (Inr (part', r'))"
  shows "partition_of (vertices g) part'
       \<and> constant_potts_model g0 (leaf_partition part) gamma
         \<le> constant_potts_model g0 (leaf_partition part') gamma"
proof -
  have symg: "symmetric g" using assms(1) by (simp add: aggregates_def)
  from move_nodes_improves[OF assms(4) symg assms(3)]
  have p': "partition_of (vertices g) part'"
    and le: "constant_potts_model g part gamma \<le> constant_potts_model g part' gamma"
    by simp_all
  have d: "distinct (vertices g)" by (rule aggregates_distinct[OF assms(1)])
  have "(\<Sum>s\<leftarrow>concat part. count_connecting_edges_in g0 (map (\<lambda>l. [l]) s))
      = (\<Sum>s\<leftarrow>concat part'. count_connecting_edges_in g0 (map (\<lambda>l. [l]) s))"
    using sum_list_partition_vertices[OF assms(3) d] sum_list_partition_vertices[OF p' d]
    by simp
  then show ?thesis
    using p' le potts_aggregated[OF assms(1,2,3), of gamma] potts_aggregated[OF assms(1,2) p', of gamma]
    by simp
qed

subsection \<open>Proofs: the refined partition\<close>

lemma shuffle_from_mset:
  "i < length x \<Longrightarrow> mset (fst (shuffle_from i x r)) = mset x"
proof (induction i arbitrary: x r)
  case 0
  then show ?case by simp
next
  case (Suc i)
  obtain j r' where rb: "randbelow (Suc (Suc i)) r = (j, r')" by (cases "randbelow (Suc (Suc i)) r")
  have j: "j < Suc (Suc i)"
    using rb by (auto simp: randbelow_def next_draw_def split: list.splits prod.splits)
  then have jl: "j < length x" using Suc.prems by simp
  have sw: "mset (x[Suc i := x ! j, j := x ! Suc i]) = mset x"
    using mset_swap[OF jl Suc.prems] by simp
  have "i < length (x[Suc i := x ! j, j := x ! Suc i])" using Suc.prems by simp
  from Suc.IH[OF this] show ?case by (simp add: rb sw)
qed

lemma shuffle_set: "set (fst (shuffle x r)) = set x"
proof (cases x)
  case Nil
  then show ?thesis by (simp add: shuffle_def)
next
  case (Cons a as)
  then have "length x - 1 < length x" by simp
  from shuffle_from_mset[OF this, of r] show ?thesis
    unfolding shuffle_def by (metis set_mset_mset)
qed

lemma bisect_le: "bisect cum x hi \<le> hi"
proof -
  have "length (takeWhile (\<lambda>c. c \<le> x) (take hi cum)) \<le> length (take hi cum)"
    by (rule length_takeWhile_le)
  then show ?thesis by (simp add: bisect_def)
qed

lemma choices_bound: "choices n weights r = (Inr k, r') \<Longrightarrow> k < n"
proof -
  assume a: "choices n weights r = (Inr k, r')"
  obtain x r2 where rr: "random r = (x, r2)" by (cases "random r")
  let ?cum = "accumulate_weights weights 0"
  from a have len: "length ?cum = n" and ne: "?cum \<noteq> []"
    and k: "k = bisect ?cum (x * last ?cum) (n - 1)"
    by (auto simp: choices_def Let_def rr split: if_splits)
  have "0 < n" using len ne by auto
  then show ?thesis using bisect_le[of ?cum "x * last ?cum" "n - 1"] k by simp
qed

lemma refines_iff:
  "refines fine coarse = (\<forall>c\<in>set fine. \<exists>d\<in>set coarse. set c \<subseteq> set d)"
  by (simp add: refines_def list_all_iff list_ex_iff)

lemma merge_node_refines:
  assumes p: "partition_of vs part" and rf: "refines part coarse"
    and subs: "subs \<in> set coarse" and n: "n \<in> set subs"
    and m: "merge_node g gamma subs n part r = (Inr part', r')"
  shows "partition_of vs part' \<and> refines part' coarse"
proof (cases "length (get_community_of_node part n) > 1")
  case True
  then have "part' = part" using m by (simp add: merge_node_def Let_def)
  then show ?thesis using p rf by simp
next
  case False
  define wcc where "wcc = filter (\<lambda>j. set (part ! j) \<subseteq> set subs \<and> well_connected g gamma (part ! j) subs)
                       [0..<length part]"
  define probs where "probs = map (\<lambda>j. probability (delta_potts_model g part gamma n
                       (get_community_of_node part n) (part ! j))) wcc"
  obtain res r2 where ch: "choices (length wcc) probs r = (res, r2)"
    by (cases "choices (length wcc) probs r")
  from m False ch obtain k where res: "res = Inr k"
    by (cases res) (auto simp: merge_node_def Let_def wcc_def[symmetric] probs_def[symmetric])
  have kb: "k < length wcc" using choices_bound ch res by simp
  define j where "j = wcc ! k"
  have "j \<in> set wcc" using kb by (simp add: j_def)
  then have jl: "j < length part" and js: "set (part ! j) \<subseteq> set subs"
    by (auto simp: wcc_def)
  show ?thesis
  proof (cases "n \<in> set (part ! j)")
    case True
    then have "part' = part"
      using m False ch res
      by (simp add: merge_node_def Let_def wcc_def[symmetric] probs_def[symmetric] j_def[symmetric])
    then show ?thesis using p rf by simp
  next
    case nj: False
    from m False ch res nj obtain ci where ci: "community_index part n = Some ci"
      and p': "part' = move_node part n ci (Some j)"
      by (auto simp: merge_node_def Let_def wcc_def[symmetric] probs_def[symmetric] j_def[symmetric]
            split: option.splits)
    have cil: "ci < length part" and nci: "n \<in> set (part ! ci)"
      using community_index_Some[OF ci] by simp_all
    have jci: "j \<noteq> ci" using nj nci by auto
    have ne: "[] \<notin> set part" using p by (simp add: partition_of_def)
    have P: "partition_of vs part'"
      unfolding p' by (rule move_node_partition_of[OF p ci]) (simp add: jl nj)
    have sub: "set part' \<subseteq> (set part \<union> {remove1 n (part ! ci)} \<union> {part ! j @ [n]}) - {[]}"
      unfolding p' using move_node_communities[OF ne cil, of "Some j" n] jl jci by simp
    have "\<exists>d\<in>set coarse. set c \<subseteq> set d" if c: "c \<in> set part'" for c
    proof -
      from sub c consider "c \<in> set part" | "c = remove1 n (part ! ci)" | "c = part ! j @ [n]"
        by auto
      then show ?thesis
      proof cases
        case 1
        then show ?thesis using rf by (simp add: refines_iff)
      next
        case 2
        have "part ! ci \<in> set part" using cil by simp
        then obtain d where "d \<in> set coarse" "set (part ! ci) \<subseteq> set d"
          using rf by (auto simp: refines_iff)
        moreover have "set c \<subseteq> set (part ! ci)" unfolding 2 by (rule set_remove1_subset)
        ultimately show ?thesis by blast
      next
        case 3
        then have "set c \<subseteq> set subs" using js n by auto
        then show ?thesis using subs by blast
      qed
    qed
    then show ?thesis using P by (simp add: refines_iff)
  qed
qed

lemma merge_loop_refines:
  "merge_loop g gamma subs nodes part r = (Inr part', r') \<Longrightarrow>
   partition_of vs part \<Longrightarrow> refines part coarse \<Longrightarrow> subs \<in> set coarse \<Longrightarrow>
   set nodes \<subseteq> set subs \<Longrightarrow>
   partition_of vs part' \<and> refines part' coarse"
proof (induction nodes arbitrary: part r)
  case Nil
  then show ?case by simp
next
  case (Cons n rest)
  obtain res r2 where mn: "merge_node g gamma subs n part r = (res, r2)"
    by (cases "merge_node g gamma subs n part r")
  from Cons.prems(1) mn obtain part1 where res: "res = Inr part1"
    by (cases res) auto
  have n: "n \<in> set subs" and rest: "set rest \<subseteq> set subs" using Cons.prems(5) by auto
  have 1: "partition_of vs part1 \<and> refines part1 coarse"
    using merge_node_refines[OF Cons.prems(2,3,4) n] mn res by simp
  have 2: "merge_loop g gamma subs rest part1 r2 = (Inr part', r')"
    using Cons.prems(1) mn res by simp
  show ?case using Cons.IH[OF 2 _ _ Cons.prems(4) rest] 1 by simp
qed

lemma merge_nodes_subset_refines:
  assumes "merge_nodes_subset g part gamma subs r = (Inr part', r')"
    and "partition_of vs part" "refines part coarse" "subs \<in> set coarse"
  shows "partition_of vs part' \<and> refines part' coarse"
proof -
  obtain nodes r2 where sh: "shuffle (filter (\<lambda>n. well_connected g gamma [n] subs) subs) r = (nodes, r2)"
    by (cases "shuffle (filter (\<lambda>n. well_connected g gamma [n] subs) subs) r")
  have "set nodes = set (filter (\<lambda>n. well_connected g gamma [n] subs) subs)"
    using shuffle_set[of "filter (\<lambda>n. well_connected g gamma [n] subs) subs" r] sh by simp
  then have sub: "set nodes \<subseteq> set subs" by auto
  have "merge_loop g gamma subs nodes part r2 = (Inr part', r')"
    using assms(1) sh by (simp add: merge_nodes_subset_def)
  from merge_loop_refines[OF this assms(2,3,4) sub] show ?thesis .
qed

lemma refine_loop_refines:
  "refine_loop g gamma rest part r = (Inr part', r') \<Longrightarrow>
   partition_of vs part \<Longrightarrow> refines part coarse \<Longrightarrow> set rest \<subseteq> set coarse \<Longrightarrow>
   partition_of vs part' \<and> refines part' coarse"
proof (induction rest arbitrary: part r)
  case Nil
  then show ?case by simp
next
  case (Cons community rest)
  obtain res r2 where ms: "merge_nodes_subset g part gamma community r = (res, r2)"
    by (cases "merge_nodes_subset g part gamma community r")
  from Cons.prems(1) ms obtain part1 where res: "res = Inr part1"
    by (cases res) auto
  have c: "community \<in> set coarse" and rest: "set rest \<subseteq> set coarse" using Cons.prems(4) by auto
  have 1: "partition_of vs part1 \<and> refines part1 coarse"
    using merge_nodes_subset_refines[OF _ Cons.prems(2,3) c] ms res by simp
  have 2: "refine_loop g gamma rest part1 r2 = (Inr part', r')"
    using Cons.prems(1) ms res by simp
  show ?case using Cons.IH[OF 2 _ _ rest] 1 by simp
qed

lemma singleton_partition_of: "distinct (vertices g) \<Longrightarrow> partition_of (vertices g) (singleton_partition g)"
proof -
  have "concat (map (\<lambda>vertex. [vertex]) vs) = vs" for vs :: "node list" by (induction vs) simp_all
  then show "distinct (vertices g) \<Longrightarrow> ?thesis"
    by (auto simp: partition_of_def singleton_partition_def)
qed

lemma refine_partition_refines:
  assumes "refine_partition g part gamma r = (Inr refined_part, r')"
    and "distinct (vertices g)" "partition_of (vertices g) part"
  shows "partition_of (vertices g) refined_part \<and> refines refined_part part"
proof -
  have "refines (singleton_partition g) part"
    using assms(3) by (auto simp: refines_iff singleton_partition_def partition_of_def)
  from refine_loop_refines[OF _ singleton_partition_of[OF assms(2)] this subset_refl] assms(1)
  show ?thesis by (simp add: refine_partition_def)
qed

subsection \<open>Proofs: the aggregated graph\<close>

lemma sum_list_swap_real:
  fixes f :: "'a \<Rightarrow> 'b \<Rightarrow> real"
  shows "(\<Sum>x\<leftarrow>xs. \<Sum>y\<leftarrow>ys. f x y) = (\<Sum>y\<leftarrow>ys. \<Sum>x\<leftarrow>xs. f x y)"
  by (induction xs) (simp_all add: sum_list_addf)

lemma sum_list_concat_map:
  fixes f :: "'a \<Rightarrow> real"
  shows "(\<Sum>a\<leftarrow>concat c. f a) = (\<Sum>n\<leftarrow>c. \<Sum>a\<leftarrow>n. f a)"
  by (induction c) simp_all

lemma cce_symmetric:
  "symmetric g \<Longrightarrow> count_connecting_edges g a b = count_connecting_edges g b a"
proof -
  assume s: "symmetric g"
  have "(\<Sum>x\<leftarrow>a. \<Sum>y\<leftarrow>b. edge_get g (x, y)) = (\<Sum>x\<leftarrow>a. \<Sum>y\<leftarrow>b. edge_get g (y, x))"
    using s by (simp add: symmetric_def)
  also have "\<dots> = (\<Sum>y\<leftarrow>b. \<Sum>x\<leftarrow>a. edge_get g (y, x))" by (rule sum_list_swap_real)
  finally show ?thesis by (simp add: count_connecting_edges_def)
qed

lemma map_of_functional:
  assumes "\<And>w w'. (k, w) \<in> set l \<Longrightarrow> (k, w') \<in> set l \<Longrightarrow> w = w'"
  shows "(map_of l k = Some w) = ((k, w) \<in> set l)"
proof
  assume "map_of l k = Some w" then show "(k, w) \<in> set l" by (rule map_of_SomeD)
next
  assume in_l: "(k, w) \<in> set l"
  then obtain w' where w': "map_of l k = Some w'" using weak_map_of_SomeI by fastforce
  then have "(k, w') \<in> set l" by (rule map_of_SomeD)
  then have "w' = w" using assms in_l by blast
  then show "map_of l k = Some w" using w' by simp
qed

lemma tmp_edges_set:
  "set (tmp_edges g part)
     = {((i, j), count_connecting_edges g (part ! i) (part ! j)) | i j.
         i < length part \<and> j < length part \<and> count_connecting_edges g (part ! i) (part ! j) > 0}"
  by (auto simp: tmp_edges_def Let_def)

lemma flatten_index_inj:
  "distinct (map flatten part) \<Longrightarrow> i < length part \<Longrightarrow> i' < length part \<Longrightarrow>
   flatten (part ! i) = flatten (part ! i') \<Longrightarrow> i = i'"
  using nth_eq_iff_index_eq[of "map flatten part" i i'] by simp

lemma aggregate_edges_Some:
  assumes d: "distinct (map flatten part)"
  shows "(edges (aggregate_graph g part) (s1, s2) = Some w)
       = (\<exists>i j. i < length part \<and> j < length part \<and> s1 = flatten (part ! i) \<and> s2 = flatten (part ! j)
            \<and> w = count_connecting_edges g (part ! i) (part ! j) \<and> w > 0)"
proof -
  let ?nv = "map flatten part"
  let ?l = "rev (map (\<lambda>(coms, weight). ((?nv ! fst coms, ?nv ! snd coms), weight)) (tmp_edges g part))"
  have setl: "((s1, s2), w) \<in> set ?l
       = (\<exists>i j. i < length part \<and> j < length part \<and> s1 = flatten (part ! i) \<and> s2 = flatten (part ! j)
            \<and> w = count_connecting_edges g (part ! i) (part ! j) \<and> w > 0)" for w
  proof -
    have "((s1, s2), w) \<in> set ?l
        = (\<exists>i j. ((i, j), w) \<in> set (tmp_edges g part) \<and> s1 = ?nv ! i \<and> s2 = ?nv ! j)"
      by (force simp: image_iff)
    also have "\<dots> = (\<exists>i j. i < length part \<and> j < length part \<and> s1 = flatten (part ! i)
            \<and> s2 = flatten (part ! j)
            \<and> w = count_connecting_edges g (part ! i) (part ! j) \<and> w > 0)"
      (is "?A = ?B")
    proof
      assume ?A
      then obtain i j where t: "((i, j), w) \<in> set (tmp_edges g part)"
        and s: "s1 = ?nv ! i" "s2 = ?nv ! j" by blast
      from t have b: "i < length part" "j < length part"
        "w = count_connecting_edges g (part ! i) (part ! j)" "w > 0"
        unfolding tmp_edges_set by auto
      show ?B
        by (rule exI[of _ i], rule exI[of _ j]) (use b s in simp)
    next
      assume ?B
      then obtain i j where b: "i < length part" "j < length part" "s1 = flatten (part ! i)"
        "s2 = flatten (part ! j)" "w = count_connecting_edges g (part ! i) (part ! j)" "w > 0"
        by blast
      have t: "((i, j), w) \<in> set (tmp_edges g part)"
        unfolding tmp_edges_set using b by blast
      show ?A
        by (rule exI[of _ i], rule exI[of _ j]) (use b t in simp)
    qed
    finally show ?thesis .
  qed
  have inj: "i = i'" if "i < length part" "i' < length part" "flatten (part ! i) = flatten (part ! i')" for i i'
    using flatten_index_inj[OF d that] .
  have fn: "w = w'" if "((s1, s2), w) \<in> set ?l" "((s1, s2), w') \<in> set ?l" for w w'
  proof -
    from that(1) obtain i j where 1: "i < length part" "j < length part" "s1 = flatten (part ! i)"
      "s2 = flatten (part ! j)" "w = count_connecting_edges g (part ! i) (part ! j)"
      unfolding setl by blast
    from that(2) obtain i' j' where 2: "i' < length part" "j' < length part" "s1 = flatten (part ! i')"
      "s2 = flatten (part ! j')" "w' = count_connecting_edges g (part ! i') (part ! j')"
      unfolding setl by blast
    have "i = i'" "j = j'" using inj 1 2 by auto
    then show ?thesis using 1 2 by simp
  qed
  have "(map_of ?l (s1, s2) = Some w) = (((s1, s2), w) \<in> set ?l)"
    by (rule map_of_functional) (rule fn)
  then show ?thesis unfolding setl by (simp add: aggregate_graph_def Let_def)
qed

lemma aggregate_symmetric:
  assumes d: "distinct (map flatten part)" and s: "symmetric g"
  shows "symmetric (aggregate_graph g part)"
proof -
  have imp: "edges (aggregate_graph g part) (b, a) = Some w"
    if "edges (aggregate_graph g part) (a, b) = Some w" for a b w
    using that unfolding aggregate_edges_Some[OF d]
    using cce_symmetric[OF s] by metis
  have "edges (aggregate_graph g part) (a, b) = edges (aggregate_graph g part) (b, a)" for a b
  proof (cases "edges (aggregate_graph g part) (a, b)")
    case None
    show ?thesis
    proof (cases "edges (aggregate_graph g part) (b, a)")
      case None2: None
      then show ?thesis using None by simp
    next
      case (Some w)
      from imp[OF this] None show ?thesis by simp
    qed
  next
    case (Some w)
    from imp[OF this] Some show ?thesis by simp
  qed
  then show ?thesis by (simp add: symmetric_def edge_get_def)
qed

lemma aggregate_edge_get:
  assumes d: "distinct (map flatten part)" and i: "i < length part" and j: "j < length part"
    and nn: "0 \<le> count_connecting_edges g (part ! i) (part ! j)"
  shows "edge_get (aggregate_graph g part) (flatten (part ! i), flatten (part ! j))
       = count_connecting_edges g (part ! i) (part ! j)"
proof (cases "edges (aggregate_graph g part) (flatten (part ! i), flatten (part ! j))")
  case None
  have "\<not> count_connecting_edges g (part ! i) (part ! j) > 0"
  proof
    assume "count_connecting_edges g (part ! i) (part ! j) > 0"
    then have "edges (aggregate_graph g part) (flatten (part ! i), flatten (part ! j))
        = Some (count_connecting_edges g (part ! i) (part ! j))"
      unfolding aggregate_edges_Some[OF d] using i j by blast
    then show False using None by simp
  qed
  then have "count_connecting_edges g (part ! i) (part ! j) = 0" using nn by simp
  then show ?thesis using None by (simp add: edge_get_def)
next
  case (Some w)
  then obtain i' j' where 1: "i' < length part" "j' < length part"
      "flatten (part ! i) = flatten (part ! i')" "flatten (part ! j) = flatten (part ! j')"
      "w = count_connecting_edges g (part ! i') (part ! j')"
    unfolding aggregate_edges_Some[OF d] by blast
  have "i = i'" "j = j'"
    using flatten_index_inj[OF d i 1(1) 1(3)] flatten_index_inj[OF d j 1(2) 1(4)] by simp_all
  then show ?thesis using Some 1 by (simp add: edge_get_def)
qed

lemma concat_map_concat: "concat (map concat xs) = concat (concat xs)"
  by (induction xs) simp_all

lemma partition_of_distinct_list: "partition_of vs part \<Longrightarrow> distinct part"
  by (auto simp: partition_of_def distinct_concat_iff)

lemma partition_of_disjoint:
  assumes "partition_of vs part" "i < length part" "j < length part" "i \<noteq> j"
  shows "set (part ! i) \<inter> set (part ! j) = {}"
proof -
  have "part ! i \<noteq> part ! j"
    using partition_of_distinct_list[OF assms(1)] assms(2,3,4) by (simp add: nth_eq_iff_index_eq)
  moreover have "part ! i \<in> set part" "part ! j \<in> set part" using assms(2,3) by simp_all
  ultimately show ?thesis using assms(1) by (auto simp: partition_of_def distinct_concat_iff)
qed

lemma partition_flatten:
  assumes a: "aggregates g0 g" and p: "partition_of (vertices g) part"
  shows "distinct (concat (map flatten part))" and "[] \<notin> set (map flatten part)"
    and "set (concat (map flatten part)) = set (concat (vertices g))"
    and "distinct (map flatten part)"
proof -
  have dv: "distinct (concat (vertices g))" and nv: "[] \<notin> set (vertices g)"
    using a by (simp_all add: aggregates_def)
  have dp: "distinct (concat part)" and sp: "set (concat part) = set (vertices g)"
    and np: "[] \<notin> set part"
    using p by (simp_all add: partition_of_def)
  have "distinct (concat (concat part))"
    by (rule distinct_concat_subset[OF dv dp]) (simp only: sp subset_refl)
  then show 1: "distinct (concat (map flatten part))"
    by (simp add: flatten_def[abs_def] concat_map_concat)
  show 2: "[] \<notin> set (map flatten part)"
  proof
    assume "[] \<in> set (map flatten part)"
    then obtain c where c: "c \<in> set part" "concat c = []" by (auto simp: flatten_def)
    then have "c \<noteq> []" using np by auto
    then obtain n where n: "n \<in> set c" by (cases c) auto
    then have "n \<in> set (vertices g)" using c(1) sp by auto
    then have "n \<noteq> []" using nv by auto
    then show False using c(2) n by auto
  qed
  have "set (concat (concat part)) = set (concat (vertices g))"
    using sp by (simp only: set_concat) 
  then show "set (concat (map flatten part)) = set (concat (vertices g))"
    by (simp add: flatten_def[abs_def] concat_map_concat)
  show "distinct (map flatten part)"
    using 1 2 by (simp add: distinct_concat_iff)
qed

lemma sum_list_blocks:
  fixes f :: "'a \<Rightarrow> 'b \<Rightarrow> real"
  shows "(\<Sum>n1\<leftarrow>c. \<Sum>n2\<leftarrow>d. \<Sum>a\<leftarrow>n1. \<Sum>b\<leftarrow>n2. f a b) = (\<Sum>a\<leftarrow>concat c. \<Sum>b\<leftarrow>concat d. f a b)"
proof -
  have "(\<Sum>n2\<leftarrow>d. \<Sum>a\<leftarrow>n1. \<Sum>b\<leftarrow>n2. f a b) = (\<Sum>a\<leftarrow>n1. \<Sum>b\<leftarrow>concat d. f a b)" for n1
  proof -
    have "(\<Sum>n2\<leftarrow>d. \<Sum>a\<leftarrow>n1. \<Sum>b\<leftarrow>n2. f a b) = (\<Sum>a\<leftarrow>n1. \<Sum>n2\<leftarrow>d. \<Sum>b\<leftarrow>n2. f a b)"
      by (rule sum_list_swap_real)
    then show ?thesis by (simp add: sum_list_concat_map)
  qed
  then show ?thesis by (simp add: sum_list_concat_map)
qed

lemma cce_aggregated:
  assumes a: "aggregates g0 g" and p: "partition_of (vertices g) part"
    and i: "i < length part" and j: "j < length part" and ij: "i \<noteq> j"
  shows "count_connecting_edges g (part ! i) (part ! j)
       = (\<Sum>a\<leftarrow>flatten (part ! i). \<Sum>b\<leftarrow>flatten (part ! j). edge_get g0 ([a], [b]))"
proof -
  have sp: "set (concat part) = set (vertices g)" using p by (simp add: partition_of_def)
  have disj: "set (part ! i) \<inter> set (part ! j) = {}" by (rule partition_of_disjoint[OF p i j ij])
  have inner: "(\<Sum>n2\<leftarrow>part ! j. edge_get g (n1, n2))
      = (\<Sum>n2\<leftarrow>part ! j. \<Sum>a\<leftarrow>n1. \<Sum>b\<leftarrow>n2. edge_get g0 ([a], [b]))" if n1: "n1 \<in> set (part ! i)" for n1
  proof (rule arg_cong[where f = sum_list], rule map_cong[OF refl])
    fix n2 assume n2: "n2 \<in> set (part ! j)"
    have "n1 \<in> set (vertices g)" "n2 \<in> set (vertices g)" using n1 n2 i j sp by auto
    moreover have "n1 \<noteq> n2" using n1 n2 disj by auto
    ultimately show "edge_get g (n1, n2) = (\<Sum>a\<leftarrow>n1. \<Sum>b\<leftarrow>n2. edge_get g0 ([a], [b]))"
      by (rule aggregates_edge[OF a])
  qed
  have "count_connecting_edges g (part ! i) (part ! j)
      = (\<Sum>n1\<leftarrow>part ! i. \<Sum>n2\<leftarrow>part ! j. \<Sum>a\<leftarrow>n1. \<Sum>b\<leftarrow>n2. edge_get g0 ([a], [b]))"
    unfolding count_connecting_edges_def
    by (rule arg_cong[where f = sum_list], rule map_cong[OF refl]) (rule inner)
  then show ?thesis by (simp add: sum_list_blocks flatten_def)
qed

lemma aggregate_graph_aggregates:
  assumes l: "leaf_graph g0" and a: "aggregates g0 g" and p: "partition_of (vertices g) part"
  shows "aggregates g0 (aggregate_graph g part)"
proof -
  note pf = partition_flatten[OF a p]
  have symg: "symmetric g" using a by (simp add: aggregates_def)
  have nn: "0 \<le> edge_get g0 (x, y)" for x y using l by (simp add: leaf_graph_def)
  have v: "vertices (aggregate_graph g part) = map flatten part"
    using pf(4) by (simp add: aggregate_graph_def Let_def)
  have e: "s1 = s2 \<or> edge_get (aggregate_graph g part) (s1, s2)
             = (\<Sum>a\<leftarrow>s1. \<Sum>b\<leftarrow>s2. edge_get g0 ([a], [b]))"
    if "s1 \<in> set (map flatten part)" "s2 \<in> set (map flatten part)" for s1 s2
  proof (cases "s1 = s2")
    case True then show ?thesis by simp
  next
    case False
    from that obtain i j where i: "i < length part" "s1 = flatten (part ! i)"
      and j: "j < length part" "s2 = flatten (part ! j)"
      by (auto simp: in_set_conv_nth)
    have ij: "i \<noteq> j" using False i j by auto
    have w: "count_connecting_edges g (part ! i) (part ! j)
        = (\<Sum>a\<leftarrow>s1. \<Sum>b\<leftarrow>s2. edge_get g0 ([a], [b]))"
      using cce_aggregated[OF a p i(1) j(1) ij] i j by simp
    have "0 \<le> (\<Sum>a\<leftarrow>s1. \<Sum>b\<leftarrow>s2. edge_get g0 ([a], [b]))"
      by (intro sum_list_nonneg) (auto intro!: sum_list_nonneg nn)
    then have "0 \<le> count_connecting_edges g (part ! i) (part ! j)" using w by simp
    from aggregate_edge_get[OF pf(4) i(1) j(1) this] w i j show ?thesis by simp
  qed
  show ?thesis
    unfolding aggregates_def v
    using pf(1,2,3) a aggregate_symmetric[OF pf(4) symg] e
    by (simp add: aggregates_def list_all_iff)
qed

subsection \<open>Proofs: the lifted partition\<close>

lemma leaf_owner:
  "distinct (concat vs) \<Longrightarrow> m \<in> set vs \<Longrightarrow> n \<in> set vs \<Longrightarrow> a \<in> set m \<Longrightarrow> a \<in> set n \<Longrightarrow> m = n"
  by (auto simp: distinct_concat_iff)

lemma partition_of_owner:
  "partition_of vs part \<Longrightarrow> c \<in> set part \<Longrightarrow> d \<in> set part \<Longrightarrow> n \<in> set c \<Longrightarrow> n \<in> set d \<Longrightarrow> c = d"
  unfolding partition_of_def by (rule leaf_owner) simp_all

lemma distinct_concat_filter: "distinct (concat xs) \<Longrightarrow> distinct (concat (filter P xs))"
  by (induction xs) auto

lemma distinct_concat_filters:
  assumes "distinct xs" "distinct cs"
    and "\<And>x c d. x \<in> set xs \<Longrightarrow> c \<in> set cs \<Longrightarrow> d \<in> set cs \<Longrightarrow> P c x \<Longrightarrow> P d x \<Longrightarrow> c = d"
  shows "distinct (concat (map (\<lambda>c. filter (P c) xs) cs))"
  using assms(2,3)
proof (induction cs)
  case Nil
  then show ?case by simp
next
  case (Cons c cs)
  have "distinct (concat (map (\<lambda>c. filter (P c) xs) cs))"
    using Cons by simp
  moreover have "set (filter (P c) xs) \<inter> set (concat (map (\<lambda>c. filter (P c) xs) cs)) = {}"
  proof (rule ccontr)
    assume "set (filter (P c) xs) \<inter> set (concat (map (\<lambda>c. filter (P c) xs) cs)) \<noteq> {}"
    then obtain x d where x: "x \<in> set xs" "P c x" "d \<in> set cs" "P d x" by auto
    then have "c = d" using Cons.prems(2)[of x c d] by simp
    then show False using x(3) Cons.prems(1) by simp
  qed
  ultimately show ?case using assms(1) by simp
qed

lemma leaves_subset_iff:
  assumes a: "aggregates g0 g" and p1: "partition_of (vertices g) part"
    and pr: "partition_of (vertices g) refined_part"
    and r: "r \<in> set refined_part" and c: "c \<in> set part"
  shows "(set (flatten r) \<subseteq> set (flatten c)) = (set r \<subseteq> set c)"
proof
  assume "set r \<subseteq> set c"
  then show "set (flatten r) \<subseteq> set (flatten c)" by (auto simp: flatten_def)
next
  assume sub: "set (flatten r) \<subseteq> set (flatten c)"
  have dv: "distinct (concat (vertices g))" and nv: "[] \<notin> set (vertices g)"
    using a by (simp_all add: aggregates_def)
  show "set r \<subseteq> set c"
  proof
    fix n assume n: "n \<in> set r"
    then have nv': "n \<in> set (vertices g)" using pr r by (auto simp: partition_of_def)
    then have "n \<noteq> []" using nv by auto
    then obtain l where l: "l \<in> set n" by (cases n) auto
    then have "l \<in> set (flatten c)" using sub n by (auto simp: flatten_def)
    then obtain m where m: "m \<in> set c" "l \<in> set m" by (auto simp: flatten_def)
    then have "m \<in> set (vertices g)" using p1 c by (auto simp: partition_of_def)
    from leaf_owner[OF dv this nv' m(2) l] m(1) show "n \<in> set c" by simp
  qed
qed

lemma refined_within:
  assumes p1: "partition_of (vertices g) part" and pr: "partition_of (vertices g) refined_part"
    and rf: "refines refined_part part" and c: "c \<in> set part" and n: "n \<in> set c"
  shows "\<exists>r\<in>set refined_part. n \<in> set r \<and> set r \<subseteq> set c"
proof -
  have "n \<in> set (vertices g)" using p1 c n by (auto simp: partition_of_def)
  then obtain r where r: "r \<in> set refined_part" "n \<in> set r" using pr by (auto simp: partition_of_def)
  then obtain d where d: "d \<in> set part" "set r \<subseteq> set d" using rf by (auto simp: refines_iff)
  then have "c = d" using partition_of_owner[OF p1 c d(1) n] r(2) by auto
  then show ?thesis using r d by auto
qed

lemma lift_leaves:
  assumes a: "aggregates g0 g" and p1: "partition_of (vertices g) part"
    and pr: "partition_of (vertices g) refined_part"
    and rf: "refines refined_part part" and c: "c \<in> set part"
  shows "set (flatten (filter (\<lambda>vertex. set vertex \<subseteq> set (flatten c)) (map flatten refined_part)))
       = set (flatten c)"
    and "distinct (flatten (filter (\<lambda>vertex. set vertex \<subseteq> set (flatten c)) (map flatten refined_part)))"
    and "distinct (flatten c)"
    and "filter (\<lambda>vertex. set vertex \<subseteq> set (flatten c)) (map flatten refined_part) \<noteq> []"
proof -
  let ?f = "filter (\<lambda>vertex. set vertex \<subseteq> set (flatten c)) (map flatten refined_part)"
  show "set (flatten ?f) = set (flatten c)"
  proof
    show "set (flatten ?f) \<subseteq> set (flatten c)" by (auto simp: flatten_def)
    show "set (flatten c) \<subseteq> set (flatten ?f)"
    proof
      fix l assume "l \<in> set (flatten c)"
      then obtain n where n: "n \<in> set c" "l \<in> set n" by (auto simp: flatten_def)
      from refined_within[OF p1 pr rf c n(1)] obtain r where
        r: "r \<in> set refined_part" "n \<in> set r" "set r \<subseteq> set c" by blast
      have "set (flatten r) \<subseteq> set (flatten c)"
        using leaves_subset_iff[OF a p1 pr r(1) c] r(3) by simp
      then have fr: "flatten r \<in> set ?f" using r(1) by simp
      have lr: "l \<in> set (flatten r)" using n(2) r(2) by (auto simp: flatten_def)
      show "l \<in> set (flatten ?f)"
        unfolding flatten_def[of ?f] set_concat using fr lr by blast
    qed
  qed
  show "distinct (flatten ?f)"
    unfolding flatten_def[of ?f]
    by (rule distinct_concat_filter) (rule partition_flatten(1)[OF a pr])
  have dv: "distinct (concat (vertices g))" using a by (simp add: aggregates_def)
  show "distinct (flatten c)"
    unfolding flatten_def
    by (rule distinct_concat_subset[OF dv partition_of_distinct[OF p1 c]])
       (use p1 c in \<open>auto simp: partition_of_def\<close>)
  show "?f \<noteq> []"
  proof -
    have "c \<noteq> []" using p1 c by (auto simp: partition_of_def)
    then obtain n where n: "n \<in> set c" by (cases c) auto
    from refined_within[OF p1 pr rf c n] obtain r where
      r: "r \<in> set refined_part" "set r \<subseteq> set c" by blast
    have "set (flatten r) \<subseteq> set (flatten c)"
      using leaves_subset_iff[OF a p1 pr r(1) c] r(2) by simp
    then have "flatten r \<in> set ?f" using r(1) by simp
    then show ?thesis by (metis empty_iff empty_set)
  qed
qed

lemma lift_partition_of:
  assumes a: "aggregates g0 g" and p1: "partition_of (vertices g) part"
    and pr: "partition_of (vertices g) refined_part"
    and rf: "refines refined_part part"
  shows "partition_of (vertices (aggregate_graph g refined_part))
           (lift_partition (aggregate_graph g refined_part) part)"
proof -
  note pf = partition_flatten[OF a pr]
  have v: "vertices (aggregate_graph g refined_part) = map flatten refined_part"
    using pf(4) by (simp add: aggregate_graph_def Let_def)
  let ?P = "\<lambda>c vertex. set vertex \<subseteq> set (flatten c)"
  let ?xs = "map flatten refined_part"
  have lp: "lift_partition (aggregate_graph g refined_part) part = map (\<lambda>c. filter (?P c) ?xs) part"
    by (simp add: lift_partition_def v)
  have 1: "[] \<notin> set (map (\<lambda>c. filter (?P c) ?xs) part)"
  proof
    assume "[] \<in> set (map (\<lambda>c. filter (?P c) ?xs) part)"
    then obtain c where c: "c \<in> set part" and e: "[] = filter (?P c) ?xs" by auto
    from lift_leaves(4)[OF a p1 pr rf c] e[symmetric] show False by simp
  qed
  have uniq: "c = d" if "x \<in> set ?xs" "c \<in> set part" "d \<in> set part" "?P c x" "?P d x" for x c d
  proof -
    from that(1) obtain r where r: "r \<in> set refined_part" "x = flatten r" by auto
    have rc: "set r \<subseteq> set c" using leaves_subset_iff[OF a p1 pr r(1) that(2)] that(4) r(2) by simp
    have rd: "set r \<subseteq> set d" using leaves_subset_iff[OF a p1 pr r(1) that(3)] that(5) r(2) by simp
    have "r \<noteq> []" using pr r(1) by (auto simp: partition_of_def)
    then obtain n where "n \<in> set r" by (cases r) auto
    then show ?thesis using partition_of_owner[OF p1 that(2,3)] rc rd by auto
  qed
  have 2: "distinct (concat (map (\<lambda>c. filter (?P c) ?xs) part))"
    by (rule distinct_concat_filters[OF pf(4) partition_of_distinct_list[OF p1]]) (rule uniq)
  have 3: "set (concat (map (\<lambda>c. filter (?P c) ?xs) part)) = set ?xs"
  proof
    show "set (concat (map (\<lambda>c. filter (?P c) ?xs) part)) \<subseteq> set ?xs" by auto
    show "set ?xs \<subseteq> set (concat (map (\<lambda>c. filter (?P c) ?xs) part))"
    proof
      fix x assume "x \<in> set ?xs"
      then obtain r where r: "r \<in> set refined_part" "x = flatten r" by auto
      then obtain d where d: "d \<in> set part" "set r \<subseteq> set d" using rf by (auto simp: refines_iff)
      have "?P d x" using leaves_subset_iff[OF a p1 pr r(1) d(1)] d(2) r(2) by simp
      then show "x \<in> set (concat (map (\<lambda>c. filter (?P c) ?xs) part))"
        using d(1) r by auto
    qed
  qed
  show ?thesis unfolding lp v partition_of_def using 1 2 3 by simp
qed

lemma community_term_leaves:
  assumes "distinct (flatten c)" "distinct (flatten d)" "set (flatten c) = set (flatten d)"
  shows "community_term g0 gamma (map (\<lambda>leaf. [leaf]) (flatten c))
       = community_term g0 gamma (map (\<lambda>leaf. [leaf]) (flatten d))"
proof -
  have len: "length (flatten c) = length (flatten d)"
    using assms by (metis distinct_card)
  have "count_connecting_edges_in g0 (map (\<lambda>leaf. [leaf]) (flatten c))
      = count_connecting_edges_in g0 (map (\<lambda>leaf. [leaf]) (flatten d))"
    by (rule in_cong_set) (use assms in \<open>simp_all add: distinct_map inj_on_def\<close>)
  then show ?thesis by (simp add: community_term_def get_len_leafs len)
qed

lemma lift_partition_potts:
  assumes a: "aggregates g0 g" and p1: "partition_of (vertices g) part"
    and pr: "partition_of (vertices g) refined_part"
    and rf: "refines refined_part part"
  shows "constant_potts_model g0 (leaf_partition (lift_partition (aggregate_graph g refined_part) part)) gamma
       = constant_potts_model g0 (leaf_partition part) gamma"
proof -
  note pf = partition_flatten[OF a pr]
  have v: "vertices (aggregate_graph g refined_part) = map flatten refined_part"
    using pf(4) by (simp add: aggregate_graph_def Let_def)
  have "(\<Sum>c\<leftarrow>part. community_term g0 gamma (map (\<lambda>leaf. [leaf])
            (flatten (filter (\<lambda>vertex. set vertex \<subseteq> set (flatten c)) (map flatten refined_part)))))
      = (\<Sum>c\<leftarrow>part. community_term g0 gamma (map (\<lambda>leaf. [leaf]) (flatten c)))"
  proof (rule arg_cong[where f = sum_list], rule map_cong[OF refl])
    fix c assume c: "c \<in> set part"
    show "community_term g0 gamma (map (\<lambda>leaf. [leaf])
            (flatten (filter (\<lambda>vertex. set vertex \<subseteq> set (flatten c)) (map flatten refined_part))))
        = community_term g0 gamma (map (\<lambda>leaf. [leaf]) (flatten c))"
      by (rule community_term_leaves)
         (rule lift_leaves(2)[OF a p1 pr rf c], rule lift_leaves(3)[OF a p1 pr rf c],
          rule lift_leaves(1)[OF a p1 pr rf c])
  qed
  then show ?thesis
    by (simp add: constant_potts_model_terms leaf_partition_def lift_partition_def v comp_def)
qed

subsection \<open>Proofs: one pass of the main loop\<close>

lemma leaf_graph_aggregates:
  assumes "leaf_graph g0"
  shows "aggregates g0 g0"
proof -
  have d: "distinct (vertices g0)" and l: "\<forall>v\<in>set (vertices g0). length v = 1"
    and s: "symmetric g0"
    using assms by (simp_all add: leaf_graph_def list_all_iff)
  have single: "\<exists>a. v = [a]" if "v \<in> set (vertices g0)" for v
    using l that by (cases v) auto
  have 1: "[] \<notin> set (vertices g0)" using l by auto
  have 2: "distinct (concat (vertices g0))"
    unfolding distinct_concat_iff
  proof (intro conjI ballI allI impI)
    show "distinct (removeAll [] (vertices g0))" using d by (simp add: distinct_removeAll)
  next
    fix ys assume "ys \<in> set (vertices g0)"
    then show "distinct ys" using single[of ys] by auto
  next
    fix ys zs assume "ys \<in> set (vertices g0) \<and> zs \<in> set (vertices g0) \<and> ys \<noteq> zs"
    then show "set ys \<inter> set zs = {}" using single[of ys] single[of zs] by auto
  qed
  have 3: "s1 = s2 \<or> edge_get g0 (s1, s2) = (\<Sum>a\<leftarrow>s1. \<Sum>b\<leftarrow>s2. edge_get g0 ([a], [b]))"
    if "s1 \<in> set (vertices g0)" "s2 \<in> set (vertices g0)" for s1 s2
    using single[OF that(1)] single[OF that(2)] by auto
  show ?thesis
    unfolding aggregates_def using 1 2 3 s by (simp add: list_all_iff)
qed

text \<open>
  C1 (Leiden monotonicity). One pass of the main loop of \<^verbatim>\<open>get_leiden_parition\<close> (the local
  move, then, unless the loop is left, the refinement, the aggregation and the lifting of
  the outer partition onto the new vertices) never lowers the objective
  \<open>H = \<Sum>C. in(C) - gamma * C(|C|, 2)\<close>, read on the input graph \<open>g0\<close> for the communities
  flattened to its vertices. The pass starts from an aggregation \<open>g\<close> of \<open>g0\<close> and a partition
  of the vertices of \<open>g\<close>, and what it hands to the next pass is again an aggregation of \<open>g0\<close>
  with a partition of its vertices, so the statement holds from every pass to the next.
  The weights of \<open>g0\<close> are stored in both directions and are not negative, and the sums
  are taken in the reals.
\<close>

theorem leiden_iteration_monotone:
  assumes l: "leaf_graph g0" and a: "aggregates g0 g" and p: "partition_of (vertices g) part"
    and it: "leiden_iteration fuel g part gamma r = Some (Inr step)"
  shows "(case step of
            Break part' r' \<Rightarrow>
              partition_of (vertices g) part'
              \<and> constant_potts_model g0 (leaf_partition part) gamma
                \<le> constant_potts_model g0 (leaf_partition part') gamma
          | Continue g' part' r' \<Rightarrow>
              aggregates g0 g' \<and> partition_of (vertices g') part'
              \<and> constant_potts_model g0 (leaf_partition part) gamma
                \<le> constant_potts_model g0 (leaf_partition part') gamma)"
proof -
  have s0: "symmetric g0" using l by (simp add: leaf_graph_def)
  from it obtain part1 r1 where mv: "move_nodes fuel g part gamma r = Some (Inr (part1, r1))"
    by (auto simp: leiden_iteration_def split: option.splits sum.splits)
  from move_nodes_leaves[OF a s0 p mv]
  have p1: "partition_of (vertices g) part1"
    and le: "constant_potts_model g0 (leaf_partition part) gamma
           \<le> constant_potts_model g0 (leaf_partition part1) gamma"
    by simp_all
  show ?thesis
  proof (cases "length part1 = length (vertices g)")
    case True
    then have "step = Break part1 r1" using it mv by (simp add: leiden_iteration_def)
    then show ?thesis using p1 le by simp
  next
    case False
    obtain res r2 where rp: "refine_partition g part1 gamma r1 = (res, r2)"
      by (cases "refine_partition g part1 gamma r1")
    from it mv False rp obtain refined_part where res: "res = Inr refined_part"
      by (cases res) (auto simp: leiden_iteration_def)
    have step: "step = Continue (aggregate_graph g refined_part)
                  (lift_partition (aggregate_graph g refined_part) part1) r2"
      using it mv False rp res by (simp add: leiden_iteration_def Let_def)
    from refine_partition_refines[OF _ aggregates_distinct[OF a] p1] rp res
    have pr: "partition_of (vertices g) refined_part" and rf: "refines refined_part part1"
      by simp_all
    have 1: "aggregates g0 (aggregate_graph g refined_part)"
      by (rule aggregate_graph_aggregates[OF l a pr])
    have 2: "partition_of (vertices (aggregate_graph g refined_part))
               (lift_partition (aggregate_graph g refined_part) part1)"
      by (rule lift_partition_of[OF a p1 pr rf])
    have 3: "constant_potts_model g0
               (leaf_partition (lift_partition (aggregate_graph g refined_part) part1)) gamma
           = constant_potts_model g0 (leaf_partition part1) gamma"
      by (rule lift_partition_potts[OF a p1 pr rf])
    show ?thesis using step 1 2 3 le by simp
  qed
qed

lemma pair_graph_leaf: "leaf_graph pair_graph"
  by (auto simp: leaf_graph_def pair_graph_def symmetric_def edge_get_def)

lemma pair_move:
  "move_nodes 20 pair_graph (singleton_partition pair_graph) (1 / 10) (0 # r)
     = Some (Inr ([[[''b''], [''a'']]], r))"
  by code_simp

lemma pair_shuffle: "shuffle [[''b''], [''a'']] (0 # r) = ([[''a''], [''b'']], r)"
  by code_simp

lemma pair_candidates:
  "filter (\<lambda>n. well_connected pair_graph (1 / 10) [n] [[''b''], [''a'']]) [[''b''], [''a'']]
     = [[''b''], [''a'']]"
  "filter (\<lambda>j. set ([[[''a'']], [[''b'']]] ! j) \<subseteq> set [[''b''], [''a'']]
       \<and> well_connected pair_graph (1 / 10) ([[[''a'']], [[''b'']]] ! j) [[''b''], [''a'']])
     [0..<length [[[''a'']], [[''b'']]]] = [0, 1]"
  "get_community_of_node [[[''a'']], [[''b'']]] [''a''] = [[''a'']]"
  "delta_potts_model pair_graph [[[''a'']], [[''b'']]] (1 / 10) [''a''] [[''a'']] [[''a'']] = 0"
  "delta_potts_model pair_graph [[[''a'']], [[''b'']]] (1 / 10) [''a''] [[''a'']] [[''b'']] = 9 / 10"
  "community_index [[[''a'']], [[''b'']]] [''a''] = Some 0"
  "move_node [[[''a'']], [[''b'']]] [''a''] 0 (Some (Suc 0)) = [[[''b''], [''a'']]]"
  "get_community_of_node [[[''b''], [''a'']]] [''b''] = [[''b''], [''a'']]"
  by code_simp+

lemma pair_probabilities: "probability 0 = 1" "probability (9 / 10) = exp 9"
  by (simp_all add: probability_def max_exp_def theta_def)

lemma pair_choices: "choices (Suc (Suc 0)) [1, exp 9] [4503599627370496] = (Inr 1, [])"
proof -
  have p: "\<not> 1 + exp (9::real) \<le> 0" using exp_gt_zero[of "9::real"] by linarith
  have q: "(1::real) \<le> (1 + exp 9) / 2" using one_le_exp_iff[of "9::real"] by simp
  show ?thesis
    using p q by (simp add: choices_def random_def next_draw_def bisect_def Let_def)
qed

lemma pair_merge_a:
  "merge_node pair_graph (1 / 10) [[''b''], [''a'']] [''a''] [[[''a'']], [[''b'']]] [4503599627370496]
     = (Inr [[[''b''], [''a'']]], [])"
  unfolding merge_node_def pair_candidates Let_def
  by (simp add: pair_candidates pair_probabilities pair_choices)

lemma pair_merge_b:
  "merge_node pair_graph (1 / 10) [[''b''], [''a'']] [''b''] [[[''b''], [''a'']]] []
     = (Inr [[[''b''], [''a'']]], [])"
  unfolding merge_node_def pair_candidates Let_def by simp

lemma pair_refine:
  "refine_partition pair_graph [[[''b''], [''a'']]] (1 / 10) [0, 4503599627370496]
     = (Inr [[[''b''], [''a'']]], [])"
proof -
  have s: "singleton_partition pair_graph = [[[''a'']], [[''b'']]]"
    by (simp add: singleton_partition_def pair_graph_def)
  show ?thesis
    unfolding refine_partition_def s refine_loop.simps merge_nodes_subset_def pair_candidates
      pair_shuffle
    by (simp add: pair_merge_a pair_merge_b)
qed

lemma pair_lift:
  "vertices (aggregate_graph pair_graph [[[''b''], [''a'']]]) = [[''b'', ''a'']]"
  "lift_partition (aggregate_graph pair_graph [[[''b''], [''a'']]]) [[[''b''], [''a'']]] = [[[''b'', ''a'']]]"
  by (simp_all add: lift_partition_def aggregate_graph_def flatten_def Let_def)

lemma pair_iteration:
  "leiden_iteration 20 pair_graph (singleton_partition pair_graph) (1 / 10) [0, 0, 4503599627370496]
     = Some (Inr (Continue (aggregate_graph pair_graph [[[''b''], [''a'']]]) [[[''b'', ''a'']]] []))"
proof -
  have v: "length (vertices pair_graph) = 2" by (simp add: pair_graph_def)
  show ?thesis
    unfolding leiden_iteration_def pair_move
    by (simp add: pair_refine pair_lift Let_def v)
qed

lemma pair_potts:
  "constant_potts_model pair_graph (leaf_partition (singleton_partition pair_graph)) (1 / 10) = 0"
  "constant_potts_model pair_graph (leaf_partition [[[''b'', ''a'']]]) (1 / 10) = 9 / 10"
  by code_simp+

text \<open>
  C1, witness: on the graph of two vertices joined by an edge of weight 1, with
  \<open>gamma = 1/10\<close>, the pass merges the two vertices in the local move, the refinement merges
  them as well, and the next pass starts from the graph of the one vertex \<open>(b, a)\<close>; the
  objective goes from 0 to 9/10.
\<close>

theorem leiden_iteration_monotone_witness:
  "leaf_graph pair_graph \<and> aggregates pair_graph pair_graph
   \<and> partition_of (vertices pair_graph) (singleton_partition pair_graph)
   \<and> leiden_iteration 20 pair_graph (singleton_partition pair_graph) (1 / 10) [0, 0, 4503599627370496]
       = Some (Inr (Continue (aggregate_graph pair_graph [[[''b''], [''a'']]]) [[[''b'', ''a'']]] []))
   \<and> aggregates pair_graph (aggregate_graph pair_graph [[[''b''], [''a'']]])
   \<and> partition_of (vertices (aggregate_graph pair_graph [[[''b''], [''a'']]])) [[[''b'', ''a'']]]
   \<and> constant_potts_model pair_graph (leaf_partition (singleton_partition pair_graph)) (1 / 10)
       \<le> constant_potts_model pair_graph (leaf_partition [[[''b'', ''a'']]]) (1 / 10)
   \<and> constant_potts_model pair_graph (leaf_partition (singleton_partition pair_graph)) (1 / 10) = 0
   \<and> constant_potts_model pair_graph (leaf_partition [[[''b'', ''a'']]]) (1 / 10) = 9 / 10"
proof -
  have 1: "aggregates pair_graph pair_graph" by (rule leaf_graph_aggregates[OF pair_graph_leaf])
  have 2: "partition_of (vertices pair_graph) (singleton_partition pair_graph)"
    by (simp add: partition_of_def singleton_partition_def pair_graph_def)
  from leiden_iteration_monotone[OF pair_graph_leaf 1 2 pair_iteration]
  show ?thesis using pair_graph_leaf 1 2 pair_iteration pair_potts by simp
qed

subsection \<open>Proofs: ties in the local move and the order of enumeration\<close>


























section \<open>Proofs: Markdown chunker\<close>

lemma process_line_budget:
  assumes "snd sec \<in> L"
    and "\<forall>c\<in>set (results s). int (length (body c)) \<le> m + 2 \<or> body c \<in> strip ` L"
    and "last_kind s = 4 \<longrightarrow> int (length (cur_body s)) \<le> m + 2 \<or> cur_body s \<in> strip ` L"
  shows "(\<forall>c\<in>set (results (process_line m s sec)).
            int (length (body c)) \<le> m + 2 \<or> body c \<in> strip ` L)
       \<and> (last_kind (process_line m s sec) = 4 \<longrightarrow>
            int (length (cur_body (process_line m s sec))) \<le> m + 2
            \<or> cur_body (process_line m s sec) \<in> strip ` L)"
proof (cases "last_kind s = 4")
  case True
  with assms show ?thesis
    by (auto simp: process_line_def flush_if_body_def append_chunk_def Let_def)
next
  case False
  with assms show ?thesis
    by (auto simp: process_line_def flush_if_body_def append_chunk_def Let_def)
qed

lemma run_lines_budget:
  "set (map snd secs) \<subseteq> L \<Longrightarrow>
   \<forall>c\<in>set (results s). int (length (body c)) \<le> m + 2 \<or> body c \<in> strip ` L \<Longrightarrow>
   last_kind s = 4 \<longrightarrow> int (length (cur_body s)) \<le> m + 2 \<or> cur_body s \<in> strip ` L \<Longrightarrow>
   (\<forall>c\<in>set (results (run_lines m s secs)).
            int (length (body c)) \<le> m + 2 \<or> body c \<in> strip ` L)
       \<and> (last_kind (run_lines m s secs) = 4 \<longrightarrow>
            int (length (cur_body (run_lines m s secs))) \<le> m + 2
            \<or> cur_body (run_lines m s secs) \<in> strip ` L)"
proof (induction secs arbitrary: s)
  case Nil
  then show ?case by (simp add: run_lines_def)
next
  case (Cons sec secs)
  have sec: "snd sec \<in> L" using Cons.prems(1) by simp
  note P = process_line_budget[OF sec Cons.prems(2) Cons.prems(3)]
  have "set (map snd secs) \<subseteq> L" using Cons.prems(1) by simp
  from Cons.IH[OF this conjunct1[OF P] conjunct2[OF P]]
  show ?case by (simp add: run_lines_def)
qed

lemma finish_budget:
  "\<forall>c\<in>set (results s). int (length (body c)) \<le> m + 2 \<or> body c \<in> strip ` L \<Longrightarrow>
   last_kind s = 4 \<longrightarrow> int (length (cur_body s)) \<le> m + 2 \<or> cur_body s \<in> strip ` L \<Longrightarrow>
   \<forall>c\<in>set (finish s). int (length (body c)) \<le> m + 2 \<or> body c \<in> strip ` L"
  by (auto simp: finish_def append_chunk_def)

lemma split_budget_all:
  "\<forall>c\<in>set (split data m).
      int (length (body c)) \<le> m + 2 \<or> body c \<in> strip ` snd ` set (sections data)"
proof -
  let ?L = "snd ` set (sections data)"
  have 1: "set (map snd (sections data)) \<subseteq> ?L" by simp
  have 2: "\<forall>c\<in>set (results init_state). int (length (body c)) \<le> m + 2 \<or> body c \<in> strip ` ?L"
    by (simp add: init_state_def)
  have 3: "last_kind init_state = 4 \<longrightarrow>
      int (length (cur_body init_state)) \<le> m + 2 \<or> cur_body init_state \<in> strip ` ?L"
    by (simp add: init_state_def)
  note R = run_lines_budget[OF 1 2 3]
  show ?thesis unfolding split_def
    by (rule finish_budget[OF conjunct1[OF R] conjunct2[OF R]])
qed

lemma process_line_results: "\<exists>cs. results (process_line m s sec) = results s @ cs"
  by (simp add: process_line_def flush_if_body_def append_chunk_def Let_def)

lemma run_lines_results: "\<exists>cs. results (run_lines m s secs) = results s @ cs"
proof (induction secs arbitrary: s)
  case Nil
  then show ?case by (simp add: run_lines_def)
next
  case (Cons sec secs)
  obtain xs where 1: "results (process_line m s sec) = results s @ xs"
    using process_line_results by blast
  obtain ys where 2: "results (run_lines m (process_line m s sec) secs)
      = results (process_line m s sec) @ ys"
    using Cons.IH by blast
  show ?case using 1 2 by (simp add: run_lines_def)
qed

lemma finish_results: "\<exists>cs. finish (run_lines m s secs) = results s @ cs"
proof -
  obtain xs where "results (run_lines m s secs) = results s @ xs"
    using run_lines_results by blast
  then show ?thesis by (simp add: finish_def append_chunk_def)
qed

lemma next_chunk_headings:
  "last_kind s = 4 \<Longrightarrow>
   \<exists>c cs. finish (run_lines m s secs) = results s @ c # cs
        \<and> h1 c = cur_h1 s \<and> h2 c = cur_h2 s \<and> h3 c = cur_h3 s
        \<and> take (length (cur_body s)) (body c) = cur_body s"
proof (induction secs arbitrary: s)
  case Nil
  then show ?case by (simp add: run_lines_def finish_def append_chunk_def)
next
  case (Cons sec secs)
  let ?s' = "process_line m s sec"
  let ?c = "\<lparr>h1 = cur_h1 s, h2 = cur_h2 s, h3 = cur_h3 s, body = cur_body s, ref = pages s\<rparr>"
  have run: "run_lines m s (sec # secs) = run_lines m ?s' secs" by (simp add: run_lines_def)
  consider (flushed) "results ?s' = results s @ [?c]"
    | (kept) "results ?s' = results s" "last_kind ?s' = 4" "cur_h1 ?s' = cur_h1 s"
        "cur_h2 ?s' = cur_h2 s" "cur_h3 ?s' = cur_h3 s"
        "take (length (cur_body s)) (cur_body ?s') = cur_body s"
    using Cons.prems
    by (cases "startswith (snd sec) ''# ''"; cases "startswith (snd sec) ''## ''";
        cases "startswith (snd sec) ''### ''";
        cases "cur_body s \<noteq> [] \<and> int (length (cur_body s)) + int (length (strip (snd sec))) > m")
       (auto simp: process_line_def flush_if_body_def append_chunk_def Let_def)
  then show ?case
  proof cases
    case flushed
    obtain cs where "finish (run_lines m ?s' secs) = results ?s' @ cs"
      using finish_results by blast
    then show ?thesis using flushed by (simp add: run)
  next
    case kept
    from Cons.IH[OF kept(2)] obtain c cs where
      c: "finish (run_lines m ?s' secs) = results ?s' @ c # cs"
         "h1 c = cur_h1 ?s'" "h2 c = cur_h2 ?s'" "h3 c = cur_h3 ?s'"
         "take (length (cur_body ?s')) (body c) = cur_body ?s'"
      by blast
    have "take (length (cur_body s)) (body c) = cur_body s"
    proof -
      have "length (cur_body s) \<le> length (cur_body ?s')"
        using kept(6) by (metis length_take min.cobounded2 min_def nat_le_linear take_all)
      then have "take (length (cur_body s)) (body c)
          = take (length (cur_body s)) (take (length (cur_body ?s')) (body c))"
        by (simp add: min_def)
      then show ?thesis using c(5) kept(6) by simp
    qed
    then show ?thesis using c kept by (auto simp: run)
  qed
qed

lemma size_flush_step:
  "size_flush m s line \<Longrightarrow>
   process_line m s (idx, line) = (append_chunk s)\<lparr>pages := {idx}, cur_body := strip line\<rparr>"
  by (simp add: size_flush_def process_line_def Let_def)

lemma split_continuation:
  assumes "sections data = pre @ (idx, line) # post"
    and "size_flush m (run_lines m init_state pre) line"
  shows "\<exists>c1 c2 cs. split data m = results (run_lines m init_state pre) @ c1 # c2 # cs
       \<and> body c1 = cur_body (run_lines m init_state pre)
       \<and> h1 c2 = h1 c1 \<and> h2 c2 = h2 c1 \<and> h3 c2 = h3 c1
       \<and> take (length (strip line)) (body c2) = strip line"
proof -
  let ?s = "run_lines m init_state pre"
  let ?s' = "(append_chunk ?s)\<lparr>pages := {idx}, cur_body := strip line\<rparr>"
  have "split data m = finish (run_lines m (process_line m ?s (idx, line)) post)"
    by (simp add: split_def assms(1) run_lines_def)
  then have S: "split data m = finish (run_lines m ?s' post)"
    by (simp add: size_flush_step[OF assms(2)])
  have "last_kind ?s' = 4" using assms(2) by (simp add: size_flush_def append_chunk_def)
  from next_chunk_headings[OF this, of m post] obtain c cs where
    c: "finish (run_lines m ?s' post) = results ?s' @ c # cs"
      "h1 c = cur_h1 ?s'" "h2 c = cur_h2 ?s'" "h3 c = cur_h3 ?s'"
      "take (length (cur_body ?s')) (body c) = cur_body ?s'"
    by blast
  show ?thesis
    using S c by (simp add: append_chunk_def)
qed

text \<open>
  C4. The size test of \<^verbatim>\<open>split\<close>, \<^verbatim>\<open>len(body) + len(line) > max_chunk_size\<close>, leaves out the
  blank line that joins the two, and no section is ever cut: under a budget of four
  characters two sections of two characters each are joined into one body of six, and
  under a budget of two a section of five characters is emitted whole.
\<close>

theorem split_exceeds_budget:
  "map body (split [''ab'' @ [nl, nl] @ ''cd''] 4) = [''ab'' @ [nl, nl] @ ''cd'']
 \<and> length (''ab'' @ [nl, nl] @ ''cd'') = 6
 \<and> map body (split [''aaaaa''] 2) = [''aaaaa'']
 \<and> length ''aaaaa'' = 5"
  by code_simp
section \<open>Proofs: retry loops\<close>

lemma ner_attempts_bound: "snd (ner_attempts xs llm c) \<le> c + length xs"
proof (induction xs arbitrary: c)
  case Nil
  then show ?case by simp
next
  case (Cons i xs)
  show ?case
  proof (cases "accept_relations (llm i)")
    case None
    then show ?thesis using Cons[of "Suc c"] by simp
  next
    case (Some r)
    then show ?thesis by simp
  qed
qed

lemma ner_attempts_exhausted:
  "\<forall>i\<in>set xs. accept_relations (llm i) = None \<Longrightarrow> ner_attempts xs llm c = (None, c + length xs)"
  by (induction xs arbitrary: c) auto

lemma info_attempts_bound: "snd (info_attempts xs llm c) \<le> c + length xs"
proof (induction xs arbitrary: c)
  case Nil
  then show ?case by simp
next
  case (Cons i xs)
  show ?case
  proof (cases "check_info (llm i)")
    case None
    then show ?thesis using Cons[of "Suc c"] by simp
  next
    case (Some r)
    then show ?thesis by simp
  qed
qed

lemma info_attempts_exhausted:
  "\<forall>i\<in>set xs. check_info (llm i) = None \<Longrightarrow> info_attempts xs llm c = (None, c + length xs)"
  by (induction xs arbitrary: c) auto

lemma generate_ner_results_bound: "snd (generate_ner_results llm fk s d store) \<le> 8"
proof -
  have "snd (ner_attempts [0..<8] llm 0) \<le> 0 + length [0..<8]" by (rule ner_attempts_bound)
  then have "snd (ner_attempts [0..<8] llm 0) \<le> 8" by simp
  then show ?thesis
    by (auto simp: generate_ner_results_def split: prod.splits option.splits)
qed

lemma generate_ner_results_exhausted:
  assumes "\<forall>i<8. accept_relations (llm i) = None"
  shows "generate_ner_results llm fk s d store
       = ((store\<lparr>is_graph := insert fk (is_graph store)\<rparr>, None), 8)"
proof -
  have "\<forall>i\<in>set [0..<8]. accept_relations (llm i) = None" using assms by simp
  from ner_attempts_exhausted[OF this, of 0]
  have "ner_attempts [0..<8] llm 0 = (None, 8)" by simp
  then show ?thesis by (simp add: generate_ner_results_def)
qed

lemma generate_community_information_bound:
  "snd (generate_community_information llm info) \<le> 10"
proof -
  have "snd (info_attempts [0..<10] llm 0) \<le> 0 + length [0..<10]" by (rule info_attempts_bound)
  then have "snd (info_attempts [0..<10] llm 0) \<le> 10" by simp
  then show ?thesis
    by (auto simp: generate_community_information_def split: prod.splits option.splits)
qed

lemma generate_community_information_exhausted:
  assumes "\<forall>i<10. check_info (llm i) = None"
  shows "generate_community_information llm info = ((0, [], {}, {}), 10)"
proof -
  have "\<forall>i\<in>set [0..<10]. check_info (llm i) = None" using assms by simp
  from info_attempts_exhausted[OF this, of 0]
  have "info_attempts [0..<10] llm 0 = (None, 10)" by simp
  then show ?thesis by (simp add: generate_community_information_def)
qed

lemma summary_attempts_first_exit:
  "\<forall>j<k. check_summary (llm (i + j)) = Retry \<Longrightarrow> check_summary (llm (i + k)) \<noteq> Retry \<Longrightarrow>
   k < fuel \<Longrightarrow> summary_attempts fuel llm i = Some (check_summary (llm (i + k)), Suc (i + k))"
proof (induction k arbitrary: i fuel)
  case 0
  then obtain f where f: "fuel = Suc f" by (cases fuel) auto
  from 0 show ?case by (cases "check_summary (llm i)") (auto simp: f)
next
  case (Suc k)
  then obtain f where f: "fuel = Suc f" by (cases fuel) auto
  have r: "check_summary (llm i) = Retry" using Suc.prems(1)[rule_format, of 0] by simp
  have 1: "\<forall>j<k. check_summary (llm (Suc i + j)) = Retry"
    using Suc.prems(1) by (metis Suc_less_eq add_Suc_shift)
  have 2: "check_summary (llm (Suc i + k)) \<noteq> Retry" using Suc.prems(2) by simp
  have 3: "k < f" using Suc.prems(3) f by simp
  from Suc.IH[OF 1 2 3] show ?case by (simp add: f r)
qed

lemma summary_attempts_never:
  "\<forall>j. check_summary (llm j) = Retry \<Longrightarrow> summary_attempts fuel llm i = None"
  by (induction fuel arbitrary: i) auto

text \<open>
  C5 (amended). The KG builder makes at most 8 LLM calls for a chunk and, when none of the
  8 responses is accepted, marks the chunk \<open>is_graph\<close> and returns; the GraphRAG query makes
  at most 10 calls for a bucket and, when none is valid, returns \<open>(0, "", {}, {})\<close>. The
  loop of the community summariser has no bound: it is left at the first response that is
  not rejected, after as many calls as that takes, and it is never left when every
  response is rejected.
\<close>

theorem retry_bounds:
  "snd (generate_ner_results llm fk s d store) \<le> 8
 \<and> ((\<forall>i<8. accept_relations (llm i) = None) \<longrightarrow>
      generate_ner_results llm fk s d store
        = ((store\<lparr>is_graph := insert fk (is_graph store)\<rparr>, None), 8))
 \<and> snd (generate_community_information gl info) \<le> 10
 \<and> ((\<forall>i<10. check_info (gl i) = None) \<longrightarrow>
      generate_community_information gl info = ((0, [], {}, {}), 10))
 \<and> ((\<forall>j<k. check_summary (sl j) = Retry) \<and> check_summary (sl k) \<noteq> Retry \<longrightarrow>
      (\<forall>fuel>k. summary_attempts fuel sl 0 = Some (check_summary (sl k), Suc k)))
 \<and> ((\<forall>j. check_summary (sl j) = Retry) \<longrightarrow> (\<forall>fuel. summary_attempts fuel sl 0 = None))"
proof -
  have E: "(\<forall>j<k. check_summary (sl j) = Retry) \<and> check_summary (sl k) \<noteq> Retry \<longrightarrow>
      (\<forall>fuel>k. summary_attempts fuel sl 0 = Some (check_summary (sl k), Suc k))"
    using summary_attempts_first_exit[of k sl 0] by simp
  show ?thesis
    using generate_ner_results_bound generate_ner_results_exhausted
      generate_community_information_bound generate_community_information_exhausted
      E summary_attempts_never
    by blast
qed

text \<open>
  C5, counterexample to the claim as stated: with eleven rejected responses in front of a
  good one, the summariser calls the LLM twelve times.
\<close>

theorem retry_bounds_counterexample:
  "summary_attempts 12 late_summary_llm 0
     = Some (Done (PyStr ''Graphs'', PyStr ''Communities of a knowledge graph''), 12)"
  by code_simp


text \<open>C5, witness: LLMs that never answer validly, and the summariser's late one.\<close>

theorem retry_bounds_witness:
  "generate_ner_results (\<lambda>_. PyNone) ''f1'' [] [] \<lparr>Node = [], Relation = [], is_graph = {}\<rparr>
     = ((\<lparr>Node = [], Relation = [], is_graph = {''f1''}\<rparr>, None), 8)
 \<and> generate_community_information (\<lambda>_. None) ([], {}, {}) = ((0, [], {}, {}), 10)
 \<and> summary_attempts 12 late_summary_llm 0 = Some (check_summary (late_summary_llm 11), 12)
 \<and> summary_attempts 1000 (\<lambda>_. ([], None)) 0 = None"
proof -
  let ?st = "\<lparr>Node = [], Relation = [], is_graph = {}\<rparr>"
  have N: "\<forall>i::nat<8. accept_relations ((\<lambda>_. PyNone) i) = None"
    by (simp add: accept_relations_def)
  have G: "\<forall>i::nat<10. check_info ((\<lambda>_. None) i) = None"
    by (simp add: check_info_def)
  have R: "check_summary ([], None) = Retry"
    by (simp add: check_summary_def read_anyway_def)
  have L: "(\<forall>j<11. check_summary (late_summary_llm j) = Retry)
      \<and> check_summary (late_summary_llm 11) \<noteq> Retry"
    by (simp add: late_summary_llm_def R) (simp add: check_summary_def check_evaluated_def)
  have A: "\<forall>j. check_summary ((\<lambda>_. ([], None)) j) = Retry"
    by (simp add: R)
  have T: "(\<forall>fuel>11. summary_attempts fuel late_summary_llm 0
        = Some (check_summary (late_summary_llm 11), Suc 11))"
    using retry_bounds [of "\<lambda>_. PyNone" "''f1''" "[]" "[]" ?st "\<lambda>_. None" "([], {}, {})" 11
        late_summary_llm] L by blast
  have U: "\<forall>fuel. summary_attempts fuel (\<lambda>_. ([], None)) 0 = None"
    using retry_bounds [of "\<lambda>_. PyNone" "''f1''" "[]" "[]" ?st "\<lambda>_. None" "([], {}, {})" 0
        "\<lambda>_. ([], None)"] A by blast
  show ?thesis
    using retry_bounds [of "\<lambda>_. PyNone" "''f1''" "[]" "[]" ?st "\<lambda>_. None" "([], {}, {})" 11
        late_summary_llm] N G T U
    by auto
qed

section \<open>Proofs: GARAG contributions\<close>

text \<open>
  C6 (amended). For two GARAG hits A and B that both pass the confidence cutoff, A with the
  strictly higher score, and a source key other than \<open>_total\<close> on which B holds a positive
  share \<open>count / _total\<close> and A a share that is at least as large, the contribution
  \<open>score * count / _total\<close> that A adds is strictly greater than the one B adds.
\<close>

theorem garag_contribution_monotone:
  assumes "set_cutoff c \<le> sB" and "sB < sA"
    and "map_of refA ''_total'' = Some tA" and "map_of refB ''_total'' = Some tB"
    and "0 < real_of_int cB / real_of_int tB"
    and "real_of_int cB / real_of_int tB \<le> real_of_int cA / real_of_int tA"
  shows "\<exists>x y. contribution sA cA refA = Inr x \<and> contribution sB cB refB = Inr y \<and> y < x"
proof -
  have tB: "tB \<noteq> 0" using assms(5) by auto
  have tA: "tA \<noteq> 0" using assms(5,6) by auto
  have "0 \<le> set_cutoff c" by (simp add: set_cutoff_def split: option.splits)
  then have sB: "0 \<le> sB" using assms(1) by simp
  have "sB * (real_of_int cB / real_of_int tB) \<le> sB * (real_of_int cA / real_of_int tA)"
    using sB assms(6) by (rule mult_left_mono[rotated])
  also have "\<dots> < sA * (real_of_int cA / real_of_int tA)"
    using assms(2,5,6) by (intro mult_strict_right_mono) auto
  finally have "sB * real_of_int cB / real_of_int tB < sA * real_of_int cA / real_of_int tA"
    by simp
  then show ?thesis using tA tB assms(3,4) by (simp add: contribution_def)
qed

text \<open>C6, witness: scores 0.9 and 0.5 with the share one half of the same file.\<close>

theorem garag_contribution_monotone_witness:
  "\<exists>x y. contribution (9 / 10) 2 [(''f'', 2), (''_total'', 4)] = Inr x
       \<and> contribution (5 / 10) 1 [(''f'', 1), (''g'', 1), (''_total'', 2)] = Inr y \<and> y < x"
proof -
  have 1: "set_cutoff None \<le> 5 / 10" by (simp add: set_cutoff_def)
  have 2: "(5 / 10 :: real) < 9 / 10" by simp
  have 3: "map_of [(''f'', 2), (''_total'', 4 :: int)] ''_total'' = Some 4" by simp
  have 4: "map_of [(''f'', 1), (''g'', 1), (''_total'', 2 :: int)] ''_total'' = Some 2" by simp
  have 5: "0 < real_of_int 1 / real_of_int 2" by simp
  have 6: "real_of_int 1 / real_of_int 2 \<le> real_of_int 2 / real_of_int 4" by simp
  show ?thesis by (rule garag_contribution_monotone [OF 1 2 3 4 5 6])
qed

text \<open>
  C6, counterexample to the claim as stated: both hits pass the default cutoff and A has the
  higher score, but A holds 1 of 10 references to the file and B holds 10 of 10, so A adds
  0.09 and B adds 0.5.
\<close>

theorem garag_contribution_counterexample:
  "set_cutoff None \<le> 5 / 10 \<and> (5 / 10 :: real) < 9 / 10
   \<and> contribution (9 / 10) 1 [(''f'', 1), (''_total'', 10)] = Inr (9 / 100)
   \<and> contribution (5 / 10) 10 [(''f'', 10), (''_total'', 10)] = Inr (5 / 10)
   \<and> \<not> ((5 / 10 :: real) < 9 / 100)"
  by (simp add: contribution_def set_cutoff_def)

section \<open>Proofs: knowledge-graph builder\<close>

lemma dict_set_keys: "fst ` set (dict_set d k v) = insert k (fst ` set d)"
  by (induction d) force+

lemma sanitise_allowed: "c \<in> set (sanitise s) \<Longrightarrow> allowed_char c"
  by (simp add: sanitise_def)

lemma clean_clean_string: "clean v = Some s \<Longrightarrow> s \<noteq> [] \<Longrightarrow> clean_string s"
  by (auto simp: clean_def clean_string_def sanitise_allowed split: pyval.splits)

lemma upsert_node_keys:
  "fst ` set (Node (upsert_node key sr s d store)) = insert key (fst ` set (Node store))"
  by (auto simp: upsert_node_def dict_set_keys split: option.splits)

lemma upsert_node_Relation: "Relation (upsert_node key sr s d store) = Relation store"
  by (simp add: upsert_node_def split: option.splits)

lemma upsert_edge_keys:
  "fst ` set (Relation (upsert_edge f t l store)) = insert (f, t, l) (fst ` set (Relation store))"
  by (auto simp: upsert_edge_def dict_set_keys split: option.splits)

lemma upsert_edge_Node: "Node (upsert_edge f t l store) = Node store"
  by (simp add: upsert_edge_def split: option.splits)

lemma node_id_inject: "node_id a = node_id b \<longleftrightarrow> a = b"
  by (simp add: node_id_def)

lemma persist_invariant:
  assumes "kg_invariant store" "clean_string f" "clean_string t" "clean_string r" "f \<noteq> t"
  shows "kg_invariant (upsert_edge (node_id f) (node_id t) r
           (upsert_node t sr s d (upsert_node f sr s d store)))"
proof -
  let ?st = "upsert_node t sr s d (upsert_node f sr s d store)"
  have N: "fst ` set (Node (upsert_edge (node_id f) (node_id t) r ?st))
      = insert t (insert f (fst ` set (Node store)))"
    by (simp add: upsert_edge_Node upsert_node_keys)
  have R: "fst ` set (Relation (upsert_edge (node_id f) (node_id t) r ?st))
      = insert (node_id f, node_id t, r) (fst ` set (Relation store))"
    by (simp add: upsert_edge_keys upsert_node_Relation)
  have new: "\<exists>f' t'. fst (node_id f, node_id t, r) = node_id f'
      \<and> fst (snd (node_id f, node_id t, r)) = node_id t' \<and> clean_string f' \<and> clean_string t'
      \<and> clean_string (snd (snd (node_id f, node_id t, r))) \<and> f' \<noteq> t'
      \<and> fst (node_id f, node_id t, r) \<noteq> fst (snd (node_id f, node_id t, r))"
    using assms(2-5) by (intro exI[of _ f] exI[of _ t]) (simp add: node_id_inject)
  show ?thesis
    unfolding kg_invariant_def N R using assms(1-3) new
    by (simp add: kg_invariant_def)
qed

lemma insert_relations_invariant:
  "kg_invariant store \<Longrightarrow> kg_invariant (fst (insert_relations rels sr s d store))"
proof (induction rels arbitrary: store)
  case Nil
  then show ?case by simp
next
  case (Cons relation rest)
  show ?case
  proof (cases relation)
    case (PyDict dict)
    show ?thesis
    proof (cases "map_of dict ''From''")
      case None
      then show ?thesis using PyDict Cons by simp
    next
      case (Some f)
      note F = this
      show ?thesis
      proof (cases "map_of dict ''To''")
        case None
        then show ?thesis using PyDict F Cons by simp
      next
        case (Some t)
        note T = this
        show ?thesis
        proof (cases "map_of dict ''Relation''")
          case None
          then show ?thesis using PyDict F T Cons by simp
        next
          case (Some r)
          note R = this
          show ?thesis
          proof (cases "clean f")
            case None
            then show ?thesis using PyDict F T R Cons by simp
          next
            case (Some f')
            note F' = this
            show ?thesis
            proof (cases "clean t")
              case None
              then show ?thesis using PyDict F T R F' Cons by simp
            next
              case (Some t')
              note T' = this
              show ?thesis
              proof (cases "clean r")
                case None
                then show ?thesis using PyDict F T R F' T' Cons by simp
              next
                case (Some r')
                note R' = this
                show ?thesis
                proof (cases "f' = [] \<or> t' = [] \<or> r' = [] \<or> f' = t'")
                  case True
                  then show ?thesis using PyDict F T R F' T' R' Cons by auto
                next
                  case False
                  then have "kg_invariant (upsert_edge (node_id f') (node_id t') r'
                      (upsert_node t' sr s d (upsert_node f' sr s d store)))"
                    using persist_invariant[OF Cons.prems] clean_clean_string F' T' R' by auto
                  from Cons.IH[OF this] False show ?thesis
                    using PyDict F T R F' T' R' by simp
                qed
              qed
            qed
          qed
        qed
      qed
    qed
  qed (use Cons in simp_all)
qed

text \<open>
  C7. \<^verbatim>\<open>_insert_relations\<close>, alone and inside \<^verbatim>\<open>generate_ner_results\<close>, keeps the invariant of
  the persisted graph: the keys of the nodes and the From, To and Relation strings of every
  edge are non-empty and consist of characters of the allowed class only, and no edge joins a
  node to itself. This holds for the store that the call leaves, also when the call ends in
  an exception.
\<close>

theorem kg_sanitisation:
  "kg_invariant store \<Longrightarrow> kg_invariant (fst (insert_relations relations source_ref source document store))
   \<and> kg_invariant (fst (fst (generate_ner_results llm file_key source document store)))"
proof -
  assume I: "kg_invariant store"
  have 1: "kg_invariant (fst (insert_relations relations source_ref source document store))"
    by (rule insert_relations_invariant[OF I])
  have flag: "\<And>st k. kg_invariant st \<Longrightarrow> kg_invariant (st\<lparr>is_graph := insert k (is_graph st)\<rparr>)"
    by (simp add: kg_invariant_def)
  have P: "\<And>rels st e. insert_relations rels [(file_key, 1), (''_total'', 1)] source document store
      = (st, e) \<Longrightarrow> kg_invariant st"
    using insert_relations_invariant[OF I] by (metis fst_conv)
  have 2: "kg_invariant (fst (fst (generate_ner_results llm file_key source document store)))"
    using I by (auto simp: generate_ner_results_def split: prod.splits option.splits
        intro: flag P dest: P)
  show ?thesis using 1 2 by simp
qed

text \<open>
  C7, witness: from the empty store, one relation is persisted with its strings sanitised
  and one, whose ends sanitise to the same key, is dropped.
\<close>

theorem kg_sanitisation_witness:
  "kg_invariant (fst (insert_relations
      [PyDict [(''From'', PyStr ''Ada Lovelace''), (''To'', PyStr ''Analytical  Engine?''),
               (''Relation'', PyStr ''wrote for'')],
       PyDict [(''From'', PyStr ''a b''), (''To'', PyStr ''a_b''), (''Relation'', PyStr ''is'')]]
      [(''f1'', 1), (''_total'', 1)] [] [] \<lparr>Node = [], Relation = [], is_graph = {}\<rparr>))
 \<and> Relation (fst (insert_relations
      [PyDict [(''From'', PyStr ''Ada Lovelace''), (''To'', PyStr ''Analytical  Engine?''),
               (''Relation'', PyStr ''wrote for'')],
       PyDict [(''From'', PyStr ''a b''), (''To'', PyStr ''a_b''), (''Relation'', PyStr ''is'')]]
      [(''f1'', 1), (''_total'', 1)] [] [] \<lparr>Node = [], Relation = [], is_graph = {}\<rparr>))
   = [((''Node/Ada_Lovelace'', ''Node/Analytical__Engine'', ''wrote_for''), 1)]"
proof -
  have I: "kg_invariant \<lparr>Node = [], Relation = [], is_graph = {}\<rparr>"
    by (simp add: kg_invariant_def)
  have E: "Relation (fst (insert_relations
      [PyDict [(''From'', PyStr ''Ada Lovelace''), (''To'', PyStr ''Analytical  Engine?''),
               (''Relation'', PyStr ''wrote for'')],
       PyDict [(''From'', PyStr ''a b''), (''To'', PyStr ''a_b''), (''Relation'', PyStr ''is'')]]
      [(''f1'', 1), (''_total'', 1)] [] [] \<lparr>Node = [], Relation = [], is_graph = {}\<rparr>))
   = [((''Node/Ada_Lovelace'', ''Node/Analytical__Engine'', ''wrote_for''), 1)]"
    by code_simp
  from kg_sanitisation [OF I] E show ?thesis by blast
qed

section \<open>Proofs: PDF stream predictors\<close>

lemma data_rows_padded:
  "0 < c \<Longrightarrow> length data = n * Suc c \<Longrightarrow>
     data_rows c (data @ replicate c 0) \<noteq> [] \<and>
     map snd (butlast (data_rows c (data @ replicate c 0))) = payloads c n data"
proof (induction n arbitrary: data)
  case 0
  then obtain c' where c': "c = Suc c'" by (cases c) auto
  from 0 have "data = []" by simp
  then show ?case by (simp add: c')
next
  case (Suc n)
  then obtain t rest where d: "data = t # rest" by (cases data) auto
  from Suc.prems d have len: "length rest = c + n * Suc c" by simp
  then have tk: "take c (rest @ replicate c 0) = take c rest" by simp
  have dr: "drop c (rest @ replicate c 0) = drop c rest @ replicate c 0" using len by simp
  have "length (drop c rest) = n * Suc c" using len by simp
  from Suc.IH[OF Suc.prems(1) this]
  have IH: "data_rows c (drop c rest @ replicate c 0) \<noteq> []"
    "map snd (butlast (data_rows c (drop c rest @ replicate c 0))) = payloads c n (drop c rest)"
    by simp_all
  have E: "data_rows c (data @ replicate c 0) =
      (t, take c rest) # data_rows c (drop c rest @ replicate c 0)"
    by (simp only: d append_Cons data_rows.simps tk dr)
  have P: "payloads c (Suc n) data = take c rest # payloads c n (drop c rest)"
    by (simp add: d)
  show ?case unfolding E P using IH by simp
qed

lemma payloads_length:
  "length data = n * Suc c \<Longrightarrow> l \<in> set (payloads c n data) \<Longrightarrow> length l = c"
proof (induction n arbitrary: data)
  case 0 then show ?case by simp
next
  case (Suc n)
  then obtain t rest where d: "data = t # rest" by (cases data) auto
  from Suc.prems d have len: "length rest = c + n * Suc c" by simp
  have "length (drop (Suc c) data) = n * Suc c" using len d by simp
  from Suc.IH[OF this] Suc.prems(2) len d show ?case by auto
qed

lemma length_png_up: "length prev = length filt \<Longrightarrow> length (png_up prev filt) = length filt"
  by (simp add: png_up_def)

lemma length_png_average:
  "length prev = length filt \<Longrightarrow> length (png_average left prev filt) = length filt"
  by (induction left prev filt rule: png_average.induct) (auto simp: Let_def)

lemma up_row_from:
  "length up = c \<Longrightarrow> length line = c \<Longrightarrow> k \<le> c \<Longrightarrow>
     up_row [k..<c] line up out =
       Inr (take k up @ png_up (drop k up) (drop k line), out @ png_up (drop k up) (drop k line))"
proof (induction "c - k" arbitrary: k up out)
  case 0
  then show ?case by (simp add: png_up_def)
next
  case (Suc d)
  then have kc: "k < c" by simp
  let ?v = "(up ! k + line ! k) mod 256"
  have du: "drop k up = up ! k # drop (Suc k) up" using kc Suc.prems by (simp add: Cons_nth_drop_Suc)
  have dl: "drop k line = line ! k # drop (Suc k) line" using kc Suc.prems by (simp add: Cons_nth_drop_Suc)
  have pu: "png_up (drop k up) (drop k line) = ?v # png_up (drop (Suc k) up) (drop (Suc k) line)"
    by (simp add: du dl png_up_def add.commute)
  have tk: "take (Suc k) (up[k := ?v]) = take k up @ [?v]"
    using kc Suc.prems by (simp add: take_Suc_conv_app_nth)
  have IH: "up_row [Suc k..<c] line (up[k := ?v]) (out @ [?v]) =
      Inr (take (Suc k) (up[k := ?v]) @ png_up (drop (Suc k) (up[k := ?v])) (drop (Suc k) line),
           (out @ [?v]) @ png_up (drop (Suc k) (up[k := ?v])) (drop (Suc k) line))"
    using Suc.hyps(1)[of "Suc k" "up[k := ?v]" "out @ [?v]"] Suc.hyps(2) Suc.prems kc by simp
  show ?case using kc Suc.prems
    by (simp add: upt_conv_Cons IH pu tk Let_def)
qed

lemma up_row_all:
  "length up = c \<Longrightarrow> length line = c \<Longrightarrow>
     up_row [0..<c] line up out = Inr (png_up up line, out @ png_up up line)"
  using up_row_from[of up c line 0 out] by simp

lemma up_rows_recon:
  "\<forall>l\<in>set lines. length l = c \<Longrightarrow> length up = c \<Longrightarrow>
     up_rows c lines up out = Inr (out @ concat (png_recon png_up up lines))"
proof (induction lines arbitrary: up out)
  case Nil then show ?case by simp
next
  case (Cons line lines)
  then have ll: "length line = c" by simp
  have "length (png_up up line) = c" using ll Cons.prems by (simp add: length_png_up)
  with Cons show ?case by (simp add: up_row_all ll Let_def)
qed

lemma avg_row_from:
  "length up = c \<Longrightarrow> length line = c \<Longrightarrow> k \<le> c \<Longrightarrow>
     avg_row [k..<c] line up prior out =
       Inr (take k up @ png_average prior (drop k up) (drop k line),
            out @ png_average prior (drop k up) (drop k line))"
proof (induction "c - k" arbitrary: k up out prior)
  case 0
  then show ?case by simp
next
  case (Suc d)
  then have kc: "k < c" by simp
  let ?v = "(line ! k + (prior + up ! k) div 2) mod 256"
  have du: "drop k up = up ! k # drop (Suc k) up" using kc Suc.prems by (simp add: Cons_nth_drop_Suc)
  have dl: "drop k line = line ! k # drop (Suc k) line" using kc Suc.prems by (simp add: Cons_nth_drop_Suc)
  have pu: "png_average prior (drop k up) (drop k line) =
      ?v # png_average ?v (drop (Suc k) up) (drop (Suc k) line)"
    by (simp add: du dl Let_def)
  have tk: "take (Suc k) (up[k := ?v]) = take k up @ [?v]"
    using kc Suc.prems by (simp add: take_Suc_conv_app_nth)
  have IH: "avg_row [Suc k..<c] line (up[k := ?v]) ?v (out @ [?v]) =
      Inr (take (Suc k) (up[k := ?v]) @ png_average ?v (drop (Suc k) (up[k := ?v])) (drop (Suc k) line),
           (out @ [?v]) @ png_average ?v (drop (Suc k) (up[k := ?v])) (drop (Suc k) line))"
    using Suc.hyps(1)[of "Suc k" "up[k := ?v]" ?v "out @ [?v]"] Suc.hyps(2) Suc.prems kc by simp
  show ?case using kc Suc.prems
    by (simp add: upt_conv_Cons IH pu tk Let_def)
qed

lemma avg_row_all:
  "length up = c \<Longrightarrow> length line = c \<Longrightarrow>
     avg_row [0..<c] line up 0 out = Inr (png_average 0 up line, out @ png_average 0 up line)"
  using avg_row_from[of up c line 0 0 out] by simp

lemma avg_rows_recon:
  "\<forall>l\<in>set lines. length l = c \<Longrightarrow> length up = c \<Longrightarrow>
     avg_rows c lines up out = Inr (out @ concat (png_recon (png_average 0) up lines))"
proof (induction lines arbitrary: up out)
  case Nil then show ?case by simp
next
  case (Cons line lines)
  then have ll: "length line = c" by simp
  have "length (png_average 0 up line) = c" using ll Cons.prems by (simp add: length_png_average)
  with Cons show ?case by (simp add: avg_row_all ll Let_def)
qed

text \<open>
  C8 (amended). For a stream of \<open>n\<close> rows of one tag byte and \<open>columns\<close> bytes,
  \<^verbatim>\<open>predictor\<close> returns the row payloads unchanged for predictor 10 (None), the PNG Up
  reconstruction for 12 and the PNG Average reconstruction for 13; a Paeth stream
  (predictor 14) is rejected with NotImplementedError.
\<close>

theorem predictor_png_rows:
  assumes "0 < columns" and "length data = n * Suc (nat columns)"
  shows "predictor data 10 1 8 columns = Inr (concat (payloads (nat columns) n data))
       \<and> predictor data 12 1 8 columns =
           Inr (concat (png_recon png_up (replicate (nat columns) 0) (payloads (nat columns) n data)))
       \<and> predictor data 13 1 8 columns =
           Inr (concat (png_recon (png_average 0) (replicate (nat columns) 0) (payloads (nat columns) n data)))
       \<and> predictor data 14 1 8 columns = Inl NotImplementedError"
proof -
  let ?c = "nat columns"
  have c: "0 < ?c" using assms(1) by simp
  note R = data_rows_padded[OF c assms(2)]
  have L: "\<forall>l\<in>set (payloads ?c n data). length l = ?c"
    using payloads_length[OF assms(2)] by blast
  have nn: "\<not> columns < 0" using assms(1) by simp
  show ?thesis
    using R nn by (simp add: predictor_def Let_def up_rows_recon[OF L] avg_rows_recon[OF L])
qed

text \<open>C8, witness: two rows of two columns.\<close>

theorem predictor_png_rows_witness:
  "predictor [0, 1, 2, 0, 3, 255] 10 1 8 2 = Inr [1, 2, 3, 255]
 \<and> predictor [0, 1, 2, 0, 3, 255] 12 1 8 2 = Inr [1, 2, 4, 1]
 \<and> predictor [0, 1, 2, 0, 3, 255] 13 1 8 2 = Inr [1, 2, 3, 1]
 \<and> predictor [0, 1, 2, 0, 3, 255] 14 1 8 2 = Inl NotImplementedError"
proof -
  have H: "length [0, 1, 2, 0, 3, 255 :: nat] = 2 * Suc (nat 2)" by simp
  have P: "payloads (nat 2) 2 [0, 1, 2, 0, 3, 255] = [[1, 2], [3, 255]]" by code_simp
  have U: "concat (png_recon png_up (replicate (nat 2) 0) [[1, 2], [3, 255]]) = [1, 2, 4, 1]"
    by code_simp
  have A: "concat (png_recon (png_average 0) (replicate (nat 2) 0) [[1, 2], [3, 255]]) = [1, 2, 3, 1]"
    by code_simp
  have Z: "(0::int) < 2" by simp
  show ?thesis using predictor_png_rows [OF Z H] unfolding P U A by simp
qed

text \<open>C8, counterexample to the claim as stated: a Paeth stream is rejected, not decoded.\<close>

theorem predictor_paeth_counterexample:
  "predictor [4, 1, 2] 14 1 8 2 = Inl NotImplementedError"
  by (simp add: predictor_def Let_def)

text \<open>
  Predictor 11 computes the running sum \<open>prior\<close> but appends the filtered byte, so its
  output differs from the PNG Sub reconstruction.
\<close>

lemma predictor_sub_keeps_filtered_bytes:
  "predictor [1, 5, 7] 11 1 8 2 = Inr [5, 7] \<and> png_sub 0 [5, 7] = [5, 12]"
  by (simp add: predictor_def Let_def numeral_2_eq_2)

section \<open>Proofs: loader\<close>

text \<open>
  C9. The loader ignores a file whose name starts with \<open>~$\<close> and loads a single text file,
  but on a directory with an entry the recursive call raises TypeError and nothing is
  loaded, and on a zip archive \<^verbatim>\<open>extractall\<close> raises TypeError, the members are not loaded and
  the temporary directory is left behind by the call.
\<close>

theorem load_file_recursion_raises:
  "load_file (Folder ''docs'' [Regular ''a.txt'' (Pages [''hello''])]) 4096
       \<lparr>inserted = [], temp_dirs = 0\<rparr>
     = (\<lparr>inserted = [], temp_dirs = 0\<rparr>, Some TypeError)
 \<and> load_file (Regular ''docs.zip'' (Members [Regular ''a.txt'' (Pages [''hello''])])) 4096
       \<lparr>inserted = [], temp_dirs = 0\<rparr>
     = (\<lparr>inserted = [], temp_dirs = 1\<rparr>, Some TypeError)
 \<and> load_file (Regular ''a.txt'' (Pages [''hello''])) 4096 \<lparr>inserted = [], temp_dirs = 0\<rparr>
     = (\<lparr>inserted = [(''a.txt'', \<lparr>h1 = [], h2 = [], h3 = [], body = ''hello'', ref = {0}\<rparr>)],
         temp_dirs = 0\<rparr>, None)
 \<and> load_file (Regular ''~$a.txt'' (Pages [''hello''])) 4096 \<lparr>inserted = [], temp_dirs = 0\<rparr>
     = (\<lparr>inserted = [], temp_dirs = 0\<rparr>, None)"
  by code_simp
section \<open>Proofs: retrieval strategies\<close>

lemma naive_results_below:
  "\<forall>h\<in>set hs. hit_score h < cutoff \<Longrightarrow> naive_results rp cutoff hs acc = Inr acc"
  by (cases hs) auto

lemma accumulate_below:
  "\<forall>h\<in>set hs. s_score h < cutoff \<Longrightarrow> accumulate cutoff hs acc = Inr acc"
  by (induction hs) auto

lemma graph_results_below:
  "\<forall>i\<in>set infos. fst i < cutoff \<Longrightarrow> graph_results rps cutoff mm infos acc = acc"
  by (cases infos) auto

lemma naive_graph_rag_nonempty:
  "naive_graph_rag_retrieve rp db mm c = Inr rs \<Longrightarrow> rs \<noteq> []"
  by (auto simp: naive_graph_rag_retrieve_def Let_def split: sum.splits if_splits)

lemma naive_rag_nonempty:
  "naive_rag_retrieve rp db mm c = Inr rs \<Longrightarrow> rs \<noteq> []"
  by (auto simp: naive_rag_retrieve_def Let_def split: sum.splits if_splits)

lemma garag_nonempty:
  "garag_retrieve rp files db mm c = Inr rs \<Longrightarrow> rs \<noteq> []"
  by (auto simp: garag_retrieve_def Let_def split: sum.splits if_splits)

lemma graph_rag_nonempty: "graph_rag_retrieve rps cs llm mm c \<noteq> []"
  by (auto simp: graph_rag_retrieve_def Let_def)

lemma naive_graph_rag_sentinel:
  "\<forall>h\<in>set (db (set_max_matches mm)). hit_score h < set_cutoff c \<Longrightarrow>
   naive_graph_rag_retrieve rp db mm c = Inr [no_documents]"
  by (simp add: naive_graph_rag_retrieve_def Let_def sorted_desc_def naive_results_below)

lemma naive_rag_sentinel:
  "\<forall>h\<in>set (db (set_max_matches mm)). hit_score h < set_cutoff c \<Longrightarrow>
   naive_rag_retrieve rp db mm c = Inr [no_documents]"
  by (simp add: naive_rag_retrieve_def Let_def sorted_desc_def naive_results_below)

lemma garag_sentinel:
  "\<forall>h\<in>set (db (set_max_matches mm * 2)). s_score h < set_cutoff c \<Longrightarrow>
   garag_retrieve rp files db mm c = Inr [no_documents]"
  by (simp add: garag_retrieve_def Let_def sorted_desc_def accumulate_below)

lemma graph_rag_sentinel:
  "\<forall>i\<in>set (community_informations cs llm). fst i < set_graph_cutoff c \<Longrightarrow>
   graph_rag_retrieve rps cs llm mm c = [no_documents]"
  by (simp add: graph_rag_retrieve_def Let_def sorted_desc_def graph_results_below)

text \<open>
  C10. Each of the four retrieval strategies returns a non-empty list whenever it returns,
  and when no candidate passes the confidence cutoff it returns exactly the one record
  \<open>no_documents\<close>, whose name is "NO DOCUMENTS FOUND", whose type is \<open>NONE\<close> and whose
  matched content is empty.
\<close>

theorem retrieve_never_empty:
  "graph_rag_retrieve rps cs llm mm gc \<noteq> []
 \<and> ((\<forall>i\<in>set (community_informations cs llm). fst i < set_graph_cutoff gc) \<longrightarrow>
      graph_rag_retrieve rps cs llm mm gc = [no_documents])
 \<and> (\<forall>rs. naive_graph_rag_retrieve rp db mm c = Inr rs \<longrightarrow> rs \<noteq> [])
 \<and> ((\<forall>h\<in>set (db (set_max_matches mm)). hit_score h < set_cutoff c) \<longrightarrow>
      naive_graph_rag_retrieve rp db mm c = Inr [no_documents])
 \<and> (\<forall>rs. garag_retrieve rp files sdb mm c = Inr rs \<longrightarrow> rs \<noteq> [])
 \<and> ((\<forall>h\<in>set (sdb (set_max_matches mm * 2)). s_score h < set_cutoff c) \<longrightarrow>
      garag_retrieve rp files sdb mm c = Inr [no_documents])
 \<and> (\<forall>rs. naive_rag_retrieve rp db mm c = Inr rs \<longrightarrow> rs \<noteq> [])
 \<and> ((\<forall>h\<in>set (db (set_max_matches mm)). hit_score h < set_cutoff c) \<longrightarrow>
      naive_rag_retrieve rp db mm c = Inr [no_documents])
 \<and> name no_documents = ''NO DOCUMENTS FOUND'' \<and> type no_documents = NONE
 \<and> matchedContent no_documents = []"
  using graph_rag_nonempty graph_rag_sentinel naive_graph_rag_nonempty naive_graph_rag_sentinel
    garag_nonempty garag_sentinel naive_rag_nonempty naive_rag_sentinel
  by (simp add: no_documents_def)


text \<open>C10, witness: stores whose only hit scores 0.01, and an LLM that never answers validly.\<close>

theorem retrieve_never_empty_witness:
  "graph_rag_retrieve (\<lambda>_. []) [] (\<lambda>_ _. None) None None = [no_documents]
 \<and> naive_graph_rag_retrieve (\<lambda>_. [])
      (\<lambda>_. [\<lparr>hit_score = 1 / 100, hit_source = Some [], hit_document = Some [], hit_content = ''x''\<rparr>])
      None None = Inr [no_documents]
 \<and> garag_retrieve (\<lambda>_. []) (\<lambda>_. None) (\<lambda>_. [\<lparr>s_score = 1 / 100, s_source_ref = Some []\<rparr>])
      None None = Inr [no_documents]
 \<and> naive_rag_retrieve (\<lambda>_. [])
      (\<lambda>_. [\<lparr>hit_score = 1 / 100, hit_source = Some [], hit_document = Some [], hit_content = ''x''\<rparr>])
      None None = Inr [no_documents]"
proof -
  let ?db = "\<lambda>_::int. [\<lparr>hit_score = 1 / 100, hit_source = Some [], hit_document = Some [],
                              hit_content = ''x''\<rparr>]"
  let ?sdb = "\<lambda>_::int. [\<lparr>s_score = 1 / 100, s_source_ref = Some []\<rparr>]"
  have G: "\<forall>i\<in>set (community_informations [] (\<lambda>_ _. None)). fst i < set_graph_cutoff None"
    by (simp add: community_informations_def generate_community_information_def
        set_graph_cutoff_def check_info_def upt_rec numeral_nat)
  have N: "\<forall>h\<in>set (?db (set_max_matches None)). hit_score h < set_cutoff None"
    by (simp add: set_cutoff_def)
  have S: "\<forall>h\<in>set (?sdb (set_max_matches None * 2)). s_score h < set_cutoff None"
    by (simp add: set_cutoff_def)
  show ?thesis
    using retrieve_never_empty [of "\<lambda>_. []" "[]" "\<lambda>_ _. None" None None "\<lambda>_. []" ?db None
        "\<lambda>_. None" ?sdb] G N S
    by blast
qed


end
